theory Spec2Isabelle
  imports Main "HOL-Library.Word" "HOL-Library.Signed_Division"
begin

unbundle bit_operations_syntax

section \<open>Machine integers, pixels and faults\<close>

text \<open>
  The program computes with the C++ type \<^verbatim>\<open>int\<close> (32 bits, two's complement) and with
  \<^verbatim>\<open>unsigned char\<close>. An \<^verbatim>\<open>int\<close> is a 32-bit word read through \<open>sint\<close>; addition,
  subtraction and multiplication wrap around. Division and remainder truncate towards
  zero, as \<^verbatim>\<open>/\<close> and \<^verbatim>\<open>%\<close> do in C++ (the divisors in the program are the constants
  8, 4, 3 and 2).
\<close>

type_synonym cint = "32 word"
type_synonym byte = "8 word"

definition c_div :: "cint \<Rightarrow> cint \<Rightarrow> cint" where
  "c_div a b = word_of_int (sint a sdiv sint b)"

definition c_mod :: "cint \<Rightarrow> cint \<Rightarrow> cint" where
  "c_mod a b = word_of_int (sint a smod sint b)"

record Pixel =
  red :: cint
  green :: cint
  blue :: cint

type_synonym Image = "Pixel list list"

text \<open>
  What the C++ run time does where the program leaves the defined behaviour of
  \<^verbatim>\<open>std::vector\<close>: constructing a vector from a negative \<^verbatim>\<open>int\<close> size (converted to a
  \<^verbatim>\<open>size_t\<close> above \<^verbatim>\<open>max_size()\<close>) throws \<^verbatim>\<open>std::length_error\<close>; an index outside the
  vector or array is out of range. Allocation of a size that fits is taken to succeed.
\<close>

datatype fault = LengthError | OutOfRange

definition bindR :: "fault + 'a \<Rightarrow> ('a \<Rightarrow> fault + 'b) \<Rightarrow> fault + 'b" where
  "bindR m f = (case m of Inl e \<Rightarrow> Inl e | Inr x \<Rightarrow> f x)"

text \<open>\<^verbatim>\<open>v[i]\<close> and \<^verbatim>\<open>v[i] = x\<close> for an \<^verbatim>\<open>int\<close> index \<open>i\<close>.\<close>

definition vat :: "'a list \<Rightarrow> cint \<Rightarrow> fault + 'a" where
  "vat v i = (if 0 \<le>s i \<and> nat (sint i) < length v then Inr (v ! nat (sint i)) else Inl OutOfRange)"

definition vset :: "'a list \<Rightarrow> cint \<Rightarrow> 'a \<Rightarrow> fault + 'a list" where
  "vset v i x = (if 0 \<le>s i \<and> nat (sint i) < length v then Inr (v[nat (sint i) := x]) else Inl OutOfRange)"

text \<open>\<^verbatim>\<open>m[i][j]\<close> and \<^verbatim>\<open>m[i][j] = x\<close>.\<close>

definition vat2 :: "'a list list \<Rightarrow> cint \<Rightarrow> cint \<Rightarrow> fault + 'a" where
  "vat2 m i j = bindR (vat m i) (\<lambda>row. vat row j)"

definition vset2 :: "'a list list \<Rightarrow> cint \<Rightarrow> cint \<Rightarrow> 'a \<Rightarrow> fault + 'a list list" where
  "vset2 m i j x = bindR (vat m i) (\<lambda>row. bindR (vset row j x) (\<lambda>row'. vset m i row'))"

text \<open>
  Loops. \<open>iter\<close> runs a loop body over the successive values of the loop variable and
  stops at the first fault. \<open>up_to n\<close> lists the values taken by \<open>i\<close> in
  \<^verbatim>\<open>for (int i = 0; i < n; i++)\<close>, \<open>down_from n\<close> those of
  \<^verbatim>\<open>for (int i = n; i >= 0; i--)\<close>, and \<open>from_to a n\<close> those of
  \<^verbatim>\<open>for (int i = a; i <= n; i++)\<close> for a non-negative constant \<open>a\<close> and \<open>n\<close> below
  the largest \<^verbatim>\<open>int\<close>.
\<close>

primrec iter :: "'i list \<Rightarrow> ('i \<Rightarrow> 's \<Rightarrow> fault + 's) \<Rightarrow> 's \<Rightarrow> fault + 's" where
  "iter [] body s = Inr s"
| "iter (i # is) body s = (case body i s of Inl e \<Rightarrow> Inl e | Inr s' \<Rightarrow> iter is body s')"

definition up_to :: "cint \<Rightarrow> cint list" where
  "up_to n = map of_nat [0..<nat (sint n)]"

definition down_from :: "cint \<Rightarrow> cint list" where
  "down_from n = map of_nat (rev [0..<nat (sint n + 1)])"

definition from_to :: "nat \<Rightarrow> cint \<Rightarrow> cint list" where
  "from_to a n = map of_nat [a..<nat (sint n + 1)]"

section \<open>The input stream\<close>

text \<open>
  An \<^verbatim>\<open>fstream\<close> opened for reading: the bytes of the file, the get position and the
  fail bit. \<open>consumed\<close> records the positions of the bytes extracted so far; it is not
  part of the C++ object and serves to state which bytes a function has read.

  \<^verbatim>\<open>seekg\<close> does nothing on a stream whose fail bit is set, and sets the fail bit when
  asked for a negative position; a position beyond the end of the file is accepted.
  \<^verbatim>\<open>get()\<close> returns the next byte as a value from 0 to 255 and advances; at the end of
  the file, or on a failed stream, it returns \<^verbatim>\<open>EOF\<close>, which is \<open>-1\<close>, and sets the fail
  bit. Nothing in the program clears the fail bit.
\<close>

record istream =
  content :: "byte list"
  gpos :: nat
  failbit :: bool
  consumed :: "nat list"

definition open_in :: "byte list \<Rightarrow> istream" where
  "open_in bs = \<lparr>content = bs, gpos = 0, failbit = False, consumed = []\<rparr>"

definition open_failed :: istream where
  "open_failed = \<lparr>content = [], gpos = 0, failbit = True, consumed = []\<rparr>"

definition seekg :: "cint \<Rightarrow> istream \<Rightarrow> istream" where
  "seekg p s = (if failbit s then s
                else if p <s 0 then s\<lparr>failbit := True\<rparr>
                else s\<lparr>gpos := nat (sint p)\<rparr>)"

definition seekg_cur :: "cint \<Rightarrow> istream \<Rightarrow> istream" where
  "seekg_cur off s = (if failbit s then s
                      else if int (gpos s) + sint off < 0 then s\<lparr>failbit := True\<rparr>
                      else s\<lparr>gpos := nat (int (gpos s) + sint off)\<rparr>)"

definition get :: "istream \<Rightarrow> cint \<times> istream" where
  "get s = (if failbit s \<or> length (content s) \<le> gpos s then (- 1, s\<lparr>failbit := True\<rparr>)
            else (ucast (content s ! gpos s),
                  s\<lparr>gpos := gpos s + 1, consumed := consumed s @ [gpos s]\<rparr>))"

section \<open>The byte reader\<close>

text \<open>
  \<^verbatim>\<open>get_int(stream, offset, bytes)\<close>: the loop adds \<^verbatim>\<open>stream.get() * base\<close> to the
  result and multiplies the base by 256, \<open>bytes\<close> times. The stream is passed by
  reference, so the function returns it with the result.
\<close>

primrec get_int_loop :: "nat \<Rightarrow> cint \<Rightarrow> cint \<Rightarrow> istream \<Rightarrow> cint \<times> istream" where
  "get_int_loop 0 result base s = (result, s)"
| "get_int_loop (Suc n) result base s =
     (case get s of (c, s') \<Rightarrow> get_int_loop n (result + c * base) (base * 256) s')"

definition get_int :: "istream \<Rightarrow> cint \<Rightarrow> cint \<Rightarrow> cint \<times> istream" where
  "get_int stream offset bytes = get_int_loop (nat (sint bytes)) 0 1 (seekg offset stream)"

text \<open>
  The value a byte position contributes: the byte, or \<open>-1\<close> past the end of the file.
  \<open>le_value f d off n\<close> is the little-endian sum of \<open>n\<close> contributions from \<open>off\<close> on.
\<close>

definition byte_or_eof :: "byte list \<Rightarrow> nat \<Rightarrow> int" where
  "byte_or_eof d k = (if k < length d then uint (d ! k) else - 1)"

definition byte_or_zero :: "byte list \<Rightarrow> nat \<Rightarrow> int" where
  "byte_or_zero d k = (if k < length d then uint (d ! k) else 0)"

definition le_value :: "(byte list \<Rightarrow> nat \<Rightarrow> int) \<Rightarrow> byte list \<Rightarrow> nat \<Rightarrow> nat \<Rightarrow> int" where
  "le_value f d off n = sum_list (map (\<lambda>i. f d (off + i) * 256 ^ i) [0..<n])"

section \<open>The bitmap decoder\<close>

text \<open>
  \<^verbatim>\<open>vector<T> v(n, x)\<close> for an \<^verbatim>\<open>int\<close> \<open>n\<close>, and the grid of value-initialised pixels
  \<^verbatim>\<open>vector<vector<Pixel>> image(n, vector<Pixel>(m))\<close>; the inner vector is constructed
  first.
\<close>

definition zero_pixel :: Pixel where
  "zero_pixel = \<lparr>red = 0, green = 0, blue = 0\<rparr>"

definition make_vector :: "cint \<Rightarrow> 'a \<Rightarrow> fault + 'a list" where
  "make_vector n x = (if n <s 0 then Inl LengthError else Inr (replicate (nat (sint n)) x))"

definition make_image :: "cint \<Rightarrow> cint \<Rightarrow> fault + Image" where
  "make_image n m = bindR (make_vector m zero_pixel) (\<lambda>row. make_vector n row)"

text \<open>\<^verbatim>\<open>m[i][j].field = x\<close>, given as the update of the element.\<close>

definition vmod2 :: "'a list list \<Rightarrow> cint \<Rightarrow> cint \<Rightarrow> ('a \<Rightarrow> 'a) \<Rightarrow> fault + 'a list list" where
  "vmod2 m i j f = bindR (vat2 m i j) (\<lambda>p. vset2 m i j (f p))"

text \<open>
  The five header fields of \<^verbatim>\<open>read_image\<close>: file size, start of the pixel array, width,
  height and bits per pixel.
\<close>

definition read_header :: "istream \<Rightarrow> (cint \<times> cint \<times> cint \<times> cint \<times> cint) \<times> istream" where
  "read_header stream =
     (case get_int stream 2 4 of (file_size, stream) \<Rightarrow>
      case get_int stream 10 4 of (start, stream) \<Rightarrow>
      case get_int stream 18 4 of (width, stream) \<Rightarrow>
      case get_int stream 22 4 of (height, stream) \<Rightarrow>
      case get_int stream 28 2 of (bits_per_pixel, stream) \<Rightarrow>
        ((file_size, start, width, height, bits_per_pixel), stream))"

definition scanline_padding :: "cint \<Rightarrow> cint" where
  "scanline_padding scanline_size =
     (if c_mod scanline_size 4 \<noteq> 0 then 4 - c_mod scanline_size 4 else 0)"

text \<open>The body of the column loop of \<^verbatim>\<open>read_image\<close>: one pixel, blue, green, red.\<close>

definition read_pixel ::
  "cint \<Rightarrow> cint \<Rightarrow> cint \<Rightarrow> Image \<times> cint \<times> istream \<Rightarrow> fault + Image \<times> cint \<times> istream" where
  "read_pixel bits_per_pixel i j st =
     (case st of (img, pos, stream) \<Rightarrow>
      case get (seekg pos stream) of (b, stream) \<Rightarrow>
      bindR (vmod2 img i j (\<lambda>p. p\<lparr>blue := b\<rparr>)) (\<lambda>img.
      case get stream of (g, stream) \<Rightarrow>
      bindR (vmod2 img i j (\<lambda>p. p\<lparr>green := g\<rparr>)) (\<lambda>img.
      case get stream of (r, stream) \<Rightarrow>
      bindR (vmod2 img i j (\<lambda>p. p\<lparr>red := r\<rparr>)) (\<lambda>img.
      Inr (img, pos + c_div bits_per_pixel 8, stream)))))"

text \<open>The body of the row loop: the pixels of one row, then the padding.\<close>

definition read_row ::
  "cint \<Rightarrow> cint \<Rightarrow> cint \<Rightarrow> cint \<Rightarrow> Image \<times> cint \<times> istream \<Rightarrow> fault + Image \<times> cint \<times> istream" where
  "read_row bits_per_pixel width padding i st =
     bindR (iter (up_to width) (read_pixel bits_per_pixel i) st) (\<lambda>(img, pos, stream).
       Inr (img, pos + padding, seekg_cur padding stream))"

text \<open>
  \<^verbatim>\<open>read_image\<close>, from the opened stream on (\<open>open_in\<close> of the bytes of the file, or
  \<open>open_failed\<close>). The result is the image and the stream as the function leaves it;
  \<open>Inr ([], stream)\<close> is the empty vector returned for a file that is not valid.
\<close>

definition read_image :: "istream \<Rightarrow> fault + Image \<times> istream" where
  "read_image stream0 =
     (case read_header stream0 of ((file_size, start, width, height, bits_per_pixel), stream) \<Rightarrow>
      let scanline_size = width * c_div bits_per_pixel 8;
          padding = scanline_padding scanline_size
      in if file_size \<noteq> start + (scanline_size + padding) * height then Inr ([], stream)
         else bindR (make_image height width) (\<lambda>img.
              bindR (iter (down_from (height - 1)) (read_row bits_per_pixel width padding)
                       (img, start, stream)) (\<lambda>(img, pos, stream).
              Inr (img, stream))))"

section \<open>The bitmap encoder\<close>

text \<open>
  \<^verbatim>\<open>set_bytes(arr, offset, bytes, value)\<close> stores \<^verbatim>\<open>(unsigned char)(value >> (i*8))\<close> at
  \<^verbatim>\<open>arr[offset+i]\<close>; the shift of a signed \<^verbatim>\<open>int\<close> is arithmetic.
\<close>

definition set_bytes :: "byte list \<Rightarrow> cint \<Rightarrow> cint \<Rightarrow> cint \<Rightarrow> fault + byte list" where
  "set_bytes arr offset bytes val =
     iter (up_to bytes)
       (\<lambda>i arr. vset arr (offset + i) (ucast (signed_drop_bit (nat (sint (i * 8))) val))) arr"

definition BMP_HEADER_SIZE :: cint where "BMP_HEADER_SIZE = 14"
definition DIB_HEADER_SIZE :: cint where "DIB_HEADER_SIZE = 40"

definition bmp_header_of :: "cint \<Rightarrow> fault + byte list" where
  "bmp_header_of array_bytes =
     bindR (set_bytes (replicate 14 0) 0 1 66) (\<lambda>h.
     bindR (set_bytes h 1 1 77) (\<lambda>h.
     bindR (set_bytes h 2 4 (BMP_HEADER_SIZE + DIB_HEADER_SIZE + array_bytes)) (\<lambda>h.
     bindR (set_bytes h 6 2 0) (\<lambda>h.
     bindR (set_bytes h 8 2 0) (\<lambda>h.
     set_bytes h 10 4 (BMP_HEADER_SIZE + DIB_HEADER_SIZE))))))"

definition dib_header_of :: "cint \<Rightarrow> cint \<Rightarrow> cint \<Rightarrow> fault + byte list" where
  "dib_header_of width_pixels height_pixels array_bytes =
     bindR (set_bytes (replicate 40 0) 0 4 DIB_HEADER_SIZE) (\<lambda>h.
     bindR (set_bytes h 4 4 width_pixels) (\<lambda>h.
     bindR (set_bytes h 8 4 height_pixels) (\<lambda>h.
     bindR (set_bytes h 12 2 1) (\<lambda>h.
     bindR (set_bytes h 14 2 24) (\<lambda>h.
     bindR (set_bytes h 16 4 0) (\<lambda>h.
     bindR (set_bytes h 20 4 array_bytes) (\<lambda>h.
     bindR (set_bytes h 24 4 2835) (\<lambda>h.
     bindR (set_bytes h 28 4 2835) (\<lambda>h.
     bindR (set_bytes h 32 4 0) (\<lambda>h.
     set_bytes h 36 4 0))))))))))"

text \<open>
  The body of the column loop of \<^verbatim>\<open>write_image\<close>: the three bytes of the pixel are
  stored in the array \<^verbatim>\<open>pixel\<close> (the conversion of an \<^verbatim>\<open>int\<close> to \<^verbatim>\<open>unsigned char\<close>
  keeps the low eight bits) and written to the stream.
\<close>

definition write_pixel :: "Image \<Rightarrow> cint \<Rightarrow> cint \<Rightarrow> byte list \<times> byte list \<Rightarrow> fault + byte list \<times> byte list" where
  "write_pixel img h w st =
     (case st of (pixel, stream) \<Rightarrow>
      bindR (vat2 img h w) (\<lambda>p0. let pixel = pixel[0 := ucast (blue p0)] in
      bindR (vat2 img h w) (\<lambda>p1. let pixel = pixel[1 := ucast (green p1)] in
      bindR (vat2 img h w) (\<lambda>p2. let pixel = pixel[2 := ucast (red p2)] in
      Inr (pixel, stream @ take 3 pixel)))))"

definition write_row ::
  "Image \<Rightarrow> cint \<Rightarrow> cint \<Rightarrow> cint \<Rightarrow> byte list \<times> byte list \<Rightarrow> fault + byte list \<times> byte list" where
  "write_row img width_pixels padding_bytes h st =
     bindR (iter (up_to width_pixels) (write_pixel img h) st) (\<lambda>(pixel, stream).
       Inr (pixel, stream @ take (nat (sint padding_bytes)) [0, 0, 0]))"

text \<open>
  \<^verbatim>\<open>write_image\<close>: \<open>can_open\<close> says whether the output file could be opened. The result
  is the value returned and the bytes written to the file.
\<close>

definition write_image :: "bool \<Rightarrow> Image \<Rightarrow> fault + bool \<times> byte list" where
  "write_image can_open img =
     bindR (vat img 0) (\<lambda>row0.
     let width_pixels = of_nat (length row0);
         height_pixels = of_nat (length img);
         width_bytes = width_pixels * 3;
         padding_bytes = c_mod (4 - c_mod width_bytes 4) 4;
         width_bytes = width_bytes + padding_bytes;
         array_bytes = width_bytes * height_pixels
     in if \<not> can_open then Inr (False, [])
        else bindR (bmp_header_of array_bytes) (\<lambda>bmp_header.
             bindR (dib_header_of width_pixels height_pixels array_bytes) (\<lambda>dib_header.
             bindR (iter (down_from (height_pixels - 1)) (write_row img width_pixels padding_bytes)
                      ([0, 0, 0], take 14 bmp_header @ take 40 dib_header)) (\<lambda>(pixel, stream).
             Inr (True, stream)))))"

section \<open>Processing helpers and transforms\<close>

definition size_image :: "Image \<Rightarrow> fault + cint \<times> cint" where
  "size_image img =
     (let rows = of_nat (length img)
      in bindR (vat img 0) (\<lambda>row0. Inr (rows, of_nat (length row0))))"

definition rbg_pixel :: "Pixel \<Rightarrow> cint \<times> cint \<times> cint" where
  "rbg_pixel p = (red p, blue p, green p)"

definition new_pixel :: "cint \<Rightarrow> cint \<Rightarrow> cint \<Rightarrow> Pixel" where
  "new_pixel r b g = zero_pixel\<lparr>red := r, blue := b, green := g\<rparr>"

definition c_max :: "cint \<Rightarrow> cint \<Rightarrow> cint" where
  "c_max a b = (if a <s b then b else a)"

text \<open>The loop bodies of \<^verbatim>\<open>rotate_90\<close>: the first rotation, and a further one.\<close>

definition rotate_first :: "Image \<Rightarrow> cint \<Rightarrow> cint \<Rightarrow> cint \<Rightarrow> Image \<Rightarrow> fault + Image" where
  "rotate_first img cols row col new_image =
     bindR (vat2 img row col) (\<lambda>p. vset2 new_image ((cols - 1) - col) row p)"

definition rotate_next ::
  "cint \<Rightarrow> cint \<Rightarrow> cint \<Rightarrow> cint \<Rightarrow> cint \<Rightarrow> Image \<times> Image \<Rightarrow> fault + Image \<times> Image" where
  "rotate_next rows cols i row col st =
     (case st of (new_image, new_image_mirror) \<Rightarrow>
      if c_mod i 2 = 0
      then bindR (vat2 new_image col row) (\<lambda>p.
           bindR (vset2 new_image_mirror ((rows - 1) - row) col p) (\<lambda>m. Inr (new_image, m)))
      else bindR (vat2 new_image_mirror row col) (\<lambda>p.
           bindR (vset2 new_image ((cols - 1) - col) row p) (\<lambda>n. Inr (n, new_image_mirror))))"

definition rotate_90 :: "Image \<Rightarrow> cint \<Rightarrow> fault + Image" where
  "rotate_90 img rotations0 =
     (let rotations = c_mod rotations0 4
      in if rotations = 0 then Inr img
         else bindR (size_image img) (\<lambda>(rows, cols).
              bindR (make_image cols rows) (\<lambda>new_image.
              bindR (make_image rows cols) (\<lambda>new_image_mirror.
              bindR (iter (up_to rows) (\<lambda>row. iter (up_to cols) (rotate_first img cols row))
                       new_image) (\<lambda>new_image.
              bindR (iter (from_to 2 rotations)
                       (\<lambda>i. iter (up_to rows) (\<lambda>row. iter (up_to cols) (rotate_next rows cols i row)))
                       (new_image, new_image_mirror)) (\<lambda>(new_image, new_image_mirror).
              if c_mod rotations 2 = 0 then Inr new_image_mirror else Inr new_image))))))"

definition gray_pixel :: "Pixel \<Rightarrow> Pixel" where
  "gray_pixel p =
     (case rbg_pixel p of (r, b, g) \<Rightarrow>
      let avg = c_div (r + b + g) 3 in new_pixel avg avg avg)"

definition process_3 :: "Image \<Rightarrow> fault + Image" where
  "process_3 img =
     bindR (size_image img) (\<lambda>(rows, cols).
     bindR (make_image rows cols) (\<lambda>new_image.
       iter (up_to rows) (\<lambda>row. iter (up_to cols) (\<lambda>col new_image.
         bindR (vat2 img row col) (\<lambda>p. vset2 new_image row col (gray_pixel p))))
         new_image))"

definition process_4 :: "Image \<Rightarrow> fault + Image" where
  "process_4 img = rotate_90 img 1"

definition threshold_pixel :: "Pixel \<Rightarrow> Pixel" where
  "threshold_pixel p =
     (case rbg_pixel p of (r, b, g) \<Rightarrow>
      let mx = c_max r b;
          mx = c_max mx g;
          sum = r + b + g
      in if 550 \<le>s sum then new_pixel 255 255 255
         else if sum \<le>s 150 then new_pixel 0 0 0
         else if mx = r then new_pixel 255 0 0
         else if mx = g then new_pixel 0 0 255
         else new_pixel 0 255 0)"

definition process_10 :: "Image \<Rightarrow> fault + Image" where
  "process_10 img =
     bindR (size_image img) (\<lambda>(rows, cols).
     bindR (make_image rows cols) (\<lambda>new_image.
       iter (up_to rows) (\<lambda>row. iter (up_to cols) (\<lambda>col new_image.
         bindR (vat2 img row col) (\<lambda>p. vset2 new_image row col (threshold_pixel p))))
         new_image))"

section \<open>Grids\<close>

text \<open>
  \<open>has_dims m A B\<close>: the grid \<open>m\<close> has \<open>A\<close> rows of \<open>B\<close> elements each. \<open>upd2\<close> is the
  grid with one element replaced.
\<close>

definition has_dims :: "'a list list \<Rightarrow> nat \<Rightarrow> nat \<Rightarrow> bool" where
  "has_dims m A B = (length m = A \<and> (\<forall>row \<in> set m. length row = B))"

definition upd2 :: "'a list list \<Rightarrow> nat \<Rightarrow> nat \<Rightarrow> 'a \<Rightarrow> 'a list list" where
  "upd2 m a b x = m[a := (m ! a)[b := x]]"

text \<open>
  A non-empty rectangular grid has at least one row, at least one column, and rows of
  one length. The program keeps the two sizes in \<^verbatim>\<open>int\<close> variables: \<open>fits_int\<close> says
  that they are below \<open>2 ^ 31\<close>.
\<close>

definition nonempty_rect :: "'a list list \<Rightarrow> bool" where
  "nonempty_rect m = (m \<noteq> [] \<and> hd m \<noteq> [] \<and> (\<forall>row \<in> set m. length row = length (hd m)))"

definition fits_int :: "'a list list \<Rightarrow> bool" where
  "fits_int m = (length m < 2 ^ 31 \<and> length (hd m) < 2 ^ 31)"

definition in_byte_range :: "cint \<Rightarrow> bool" where
  "in_byte_range c = (0 \<le>s c \<and> c \<le>s 255)"

definition pixel_in_range :: "Pixel \<Rightarrow> bool" where
  "pixel_in_range p = (in_byte_range (red p) \<and> in_byte_range (green p) \<and> in_byte_range (blue p))"

definition image_in_range :: "Image \<Rightarrow> bool" where
  "image_in_range img = (\<forall>row \<in> set img. \<forall>p \<in> set row. pixel_in_range p)"

text \<open>
  The colour threshold in the words of the specification: white from a channel sum of
  550 on, black up to a sum of 150, otherwise the pure colour of the largest channel,
  red before green before blue. Sum and comparisons are those of \<^verbatim>\<open>int\<close>.
\<close>

definition is_max_channel :: "cint \<Rightarrow> Pixel \<Rightarrow> bool" where
  "is_max_channel c p = (red p \<le>s c \<and> green p \<le>s c \<and> blue p \<le>s c)"

definition threshold_spec :: "Pixel \<Rightarrow> Pixel" where
  "threshold_spec p =
     (if 550 \<le>s red p + green p + blue p then \<lparr>red = 255, green = 255, blue = 255\<rparr>
      else if red p + green p + blue p \<le>s 150 then \<lparr>red = 0, green = 0, blue = 0\<rparr>
      else if is_max_channel (red p) p then \<lparr>red = 255, green = 0, blue = 0\<rparr>
      else if is_max_channel (green p) p then \<lparr>red = 0, green = 255, blue = 0\<rparr>
      else \<lparr>red = 0, green = 0, blue = 255\<rparr>)"

text \<open>
  The quarter turn that the first loop of \<^verbatim>\<open>rotate_90\<close> computes: element \<open>(a, b)\<close> of the
  result is element \<open>(b, C - 1 - a)\<close> of an \<open>R\<close> by \<open>C\<close> grid, so that the source element
  \<open>(row, col)\<close> lands at \<open>(C - 1 - col, row)\<close>. \<open>repeatR n f\<close> applies \<open>f\<close> \<open>n\<close> times in
  succession, stopping at the first fault.
\<close>

definition rot_ccw :: "'a list list \<Rightarrow> 'a list list" where
  "rot_ccw m = map (\<lambda>a. map (\<lambda>b. m ! b ! (length (hd m) - 1 - a)) [0..<length m]) [0..<length (hd m)]"

primrec repeatR :: "nat \<Rightarrow> ('a \<Rightarrow> fault + 'a) \<Rightarrow> 'a \<Rightarrow> fault + 'a" where
  "repeatR 0 f x = Inr x"
| "repeatR (Suc n) f x = bindR (f x) (repeatR n f)"

section \<open>Notions of the file format\<close>

text \<open>
  \<open>round_up4 x\<close> is \<open>x\<close> rounded up to the next multiple of 4, as an \<^verbatim>\<open>int\<close>: the row
  stride of the specification for a row of \<open>x\<close> bytes. \<open>header_positions\<close> are the byte
  offsets of the five header fields that \<open>read_header\<close> reads.
\<close>

definition round_up4 :: "cint \<Rightarrow> cint" where
  "round_up4 x = word_of_int (4 * ((sint x + 3) div 4))"

definition header_positions :: "nat set" where
  "header_positions = {2..<6} \<union> {10..<14} \<union> {18..<26} \<union> {28..<30}"

text \<open>
  The layout that \<^verbatim>\<open>write_image\<close> produces for an image of \<open>C\<close> columns: \<open>pad_of C\<close> zero
  bytes after the \<open>3 * C\<close> bytes of a row, \<open>stride_of C\<close> bytes per row, and 54 bytes of
  headers before the rows. A channel is stored as its value modulo 256, a pixel as blue,
  green, red, and the rows from the last to the first.
\<close>

definition pad_of :: "nat \<Rightarrow> nat" where
  "pad_of C = (4 - 3 * C mod 4) mod 4"

definition stride_of :: "nat \<Rightarrow> nat" where
  "stride_of C = 3 * C + pad_of C"

definition encoded_size :: "'a list list \<Rightarrow> nat" where
  "encoded_size m = 54 + stride_of (length (hd m)) * length m"

definition chan_byte :: "cint \<Rightarrow> byte" where
  "chan_byte v = word_of_int (sint v mod 256)"

definition pixel_bytes :: "Pixel \<Rightarrow> byte list" where
  "pixel_bytes p = [chan_byte (blue p), chan_byte (green p), chan_byte (red p)]"

definition row_bytes :: "nat \<Rightarrow> Pixel list \<Rightarrow> byte list" where
  "row_bytes pad row = concat (map pixel_bytes row) @ replicate pad 0"

definition pixel_array :: "Image \<Rightarrow> byte list" where
  "pixel_array img = concat (map (row_bytes (pad_of (length (hd img)))) (rev img))"

section \<open>Sample files\<close>

text \<open>
  \<open>negative_width_file\<close>: a 58-byte file whose header gives file size 58, pixel array at
  54, width \<open>-1\<close>, height 1 and 24 bits per pixel. \<open>size_mismatch_file\<close>: the 70-byte file
  of a 2 by 2 image, with the file size field set to 71. \<open>zero_width_file\<close>: a 54-byte
  file whose header gives file size 54, pixel array at 54, width 0 and height 1.
\<close>

definition negative_width_file :: "byte list" where
  "negative_width_file =
     [66, 77, 58, 0, 0, 0, 0, 0, 0, 0, 54, 0, 0, 0,
      40, 0, 0, 0, 255, 255, 255, 255, 1, 0, 0, 0, 1, 0, 24, 0, 0, 0, 0, 0, 4, 0, 0, 0,
      19, 11, 0, 0, 19, 11, 0, 0, 0, 0, 0, 0, 0, 0, 0, 0,
      1, 2, 3, 0]"

definition size_mismatch_file :: "byte list" where
  "size_mismatch_file =
     [66, 77, 71, 0, 0, 0, 0, 0, 0, 0, 54, 0, 0, 0,
      40, 0, 0, 0, 2, 0, 0, 0, 2, 0, 0, 0, 1, 0, 24, 0, 0, 0, 0, 0, 16, 0, 0, 0,
      19, 11, 0, 0, 19, 11, 0, 0, 0, 0, 0, 0, 0, 0, 0, 0,
      255, 0, 0, 255, 255, 255, 0, 0, 0, 0, 255, 0, 255, 0, 0, 0]"

definition zero_width_file :: "byte list" where
  "zero_width_file =
     [66, 77, 54, 0, 0, 0, 0, 0, 0, 0, 54, 0, 0, 0,
      40, 0, 0, 0, 0, 0, 0, 0, 1, 0, 0, 0, 1, 0, 24, 0, 0, 0, 0, 0, 0, 0, 0, 0,
      19, 11, 0, 0, 19, 11, 0, 0, 0, 0, 0, 0, 0, 0, 0, 0]"

text \<open>The four bytes that \<open>set_bytes\<close> stores for a four-byte field.\<close>

definition le4 :: "cint \<Rightarrow> byte list" where
  "le4 v = [ucast v, ucast (signed_drop_bit 8 v), ucast (signed_drop_bit 16 v),
            ucast (signed_drop_bit 24 v)]"

text \<open>
  The 54 bytes of the two headers that \<^verbatim>\<open>write_image\<close> builds for a width \<open>w\<close>, a height
  \<open>h\<close> and a pixel array of \<open>a\<close> bytes.
\<close>

definition file_header :: "cint \<Rightarrow> cint \<Rightarrow> cint \<Rightarrow> byte list" where
  "file_header w h a =
     [66, 77] @ le4 (54 + a) @ [0, 0, 0, 0] @ le4 54
     @ le4 40 @ le4 w @ le4 h @ [1, 0, 24, 0] @ le4 0 @ le4 a @ le4 2835 @ le4 2835 @ le4 0 @ le4 0"

text \<open>
  \<open>truncated_file\<close>: a file of 29 bytes, which ends in the middle of the bits-per-pixel
  field; its header gives file size 30, pixel array at 54, width 1 and height 1, and the
  low byte of the field is 8. \<open>four_bpp_file\<close>: a 54-byte file whose header gives file
  size 54, pixel array at 54, width 8, height 1 and 4 bits per pixel, with no pixel array.
\<close>

definition truncated_file :: "byte list" where
  "truncated_file =
     [66, 77, 30, 0, 0, 0, 0, 0, 0, 0, 54, 0, 0, 0,
      40, 0, 0, 0, 1, 0, 0, 0, 1, 0, 0, 0, 1, 0, 8]"

definition four_bpp_file :: "byte list" where
  "four_bpp_file =
     [66, 77, 54, 0, 0, 0, 0, 0, 0, 0, 54, 0, 0, 0,
      40, 0, 0, 0, 8, 0, 0, 0, 1, 0, 0, 0, 1, 0, 4, 0, 0, 0, 0, 0, 0, 0, 0, 0,
      19, 11, 0, 0, 19, 11, 0, 0, 0, 0, 0, 0, 0, 0, 0, 0]"

section \<open>Properties of the byte reader\<close>

lemma sum_list_scale:
  "(\<Sum>x\<leftarrow>xs. g x * (c * h x)) = (c::int) * (\<Sum>x\<leftarrow>xs. g x * h x)"
  by (induction xs) (simp_all add: algebra_simps)

lemma le_value_Suc_shift:
  "le_value f d p (Suc n) = f d p + 256 * le_value f d (Suc p) n"
proof -
  have "[0..<Suc n] = 0 # map Suc [0..<n]"
    by (simp add: upt_conv_Cons map_Suc_upt del: upt_Suc)
  then show ?thesis
    by (simp add: le_value_def o_def sum_list_scale del: upt_Suc)
qed

lemma get_int_loop_value:
  assumes "failbit s \<longrightarrow> length (content s) \<le> p" and "\<not> failbit s \<longrightarrow> gpos s = p"
  shows "fst (get_int_loop n r b s) = r + b * word_of_int (le_value byte_or_eof (content s) p n)"
  using assms
proof (induction n arbitrary: r b s p)
  case 0
  then show ?case by (simp add: le_value_def)
next
  case (Suc n)
  show ?case
  proof (cases "failbit s \<or> length (content s) \<le> gpos s")
    case True
    then have g: "get s = (- 1, s\<lparr>failbit := True\<rparr>)" by (simp add: get_def)
    from True Suc.prems have e: "byte_or_eof (content s) p = - 1"
      by (auto simp: byte_or_eof_def)
    have "fst (get_int_loop n (r + (- 1) * b) (b * 256) (s\<lparr>failbit := True\<rparr>))
        = (r + (- 1) * b) + (b * 256) * word_of_int (le_value byte_or_eof (content (s\<lparr>failbit := True\<rparr>)) (Suc p) n)"
      using True Suc.prems by (intro Suc.IH) auto
    then show ?thesis
      by (simp add: g le_value_Suc_shift e algebra_simps)
  next
    case False
    then have g: "get s = (ucast (content s ! gpos s), s\<lparr>gpos := gpos s + 1, consumed := consumed s @ [gpos s]\<rparr>)"
      by (simp add: get_def)
    from False Suc.prems have p: "gpos s = p" by simp
    from False p have e: "byte_or_eof (content s) p = uint (content s ! p)"
      by (auto simp: byte_or_eof_def)
    let ?s = "s\<lparr>gpos := gpos s + 1, consumed := consumed s @ [gpos s]\<rparr>"
    have "fst (get_int_loop n (r + ucast (content s ! gpos s) * b) (b * 256) ?s)
        = (r + ucast (content s ! gpos s) * b) + (b * 256) * word_of_int (le_value byte_or_eof (content ?s) (Suc p) n)"
      using False p by (intro Suc.IH) auto
    then show ?thesis
      by (simp add: g le_value_Suc_shift e p algebra_simps)
  qed
qed


lemma get_int_value:
  assumes "\<not> failbit s" and "0 \<le>s offset"
  shows "fst (get_int s offset bytes)
       = word_of_int (le_value byte_or_eof (content s) (nat (sint offset)) (nat (sint bytes)))"
proof -
  let ?s = "seekg offset s"
  from assms have s: "\<not> failbit ?s" "gpos ?s = nat (sint offset)" "content ?s = content s"
    by (simp_all add: seekg_def word_sless_alt word_sle_eq)
  then show ?thesis
    using get_int_loop_value [of ?s "nat (sint offset)" "nat (sint bytes)" 0 1]
    by (simp add: get_int_def)
qed

lemma le_value_in_range:
  assumes "off + n \<le> length d"
  shows "le_value byte_or_eof d off n = le_value byte_or_zero d off n"
proof -
  have "map (\<lambda>i. byte_or_eof d (off + i) * 256 ^ i) [0..<n]
      = map (\<lambda>i. byte_or_zero d (off + i) * 256 ^ i) [0..<n]"
    using assms by (intro map_cong) (auto simp: byte_or_eof_def byte_or_zero_def)
  then show ?thesis unfolding le_value_def by (rule arg_cong)
qed

lemma le_value_zero_nonneg: "0 \<le> le_value byte_or_zero d off n"
  unfolding le_value_def byte_or_zero_def
  by (rule sum_list_nonneg) auto

text \<open>
  Claim C3, as the code has it. On a stream that has not failed, for an offset that is
  not negative and a byte count from 1 to 4, \<open>get_int\<close> returns the 32-bit \<^verbatim>\<open>int\<close>
  congruent modulo \<open>2 ^ 32\<close> to the little-endian sum of the addressed positions, where
  a position past the end of the file contributes \<open>- 1\<close> (the value of \<^verbatim>\<open>EOF\<close>), not
  zero. When all addressed bytes exist and their unsigned little-endian value is below
  \<open>2 ^ 31\<close>, the result is that value.
\<close>

theorem get_int_little_endian:
  assumes "\<not> failbit s" and "0 \<le>s offset" and "1 \<le>s bytes" and "bytes \<le>s 4"
  shows "fst (get_int s offset bytes)
           = word_of_int (le_value byte_or_eof (content s) (nat (sint offset)) (nat (sint bytes)))
       \<and> (nat (sint offset) + nat (sint bytes) \<le> length (content s)
            \<and> le_value byte_or_zero (content s) (nat (sint offset)) (nat (sint bytes)) < 2 ^ 31
          \<longrightarrow> sint (fst (get_int s offset bytes))
                = le_value byte_or_zero (content s) (nat (sint offset)) (nat (sint bytes)))"
proof -
  let ?v = "le_value byte_or_zero (content s) (nat (sint offset)) (nat (sint bytes))"
  have a: "fst (get_int s offset bytes)
           = word_of_int (le_value byte_or_eof (content s) (nat (sint offset)) (nat (sint bytes)))"
    using assms(1,2) by (rule get_int_value)
  have "sint (fst (get_int s offset bytes)) = ?v"
    if "nat (sint offset) + nat (sint bytes) \<le> length (content s)" and "?v < 2 ^ 31"
  proof -
    have "fst (get_int s offset bytes) = word_of_int ?v"
      using a that(1) by (simp add: le_value_in_range)
    moreover have "0 \<le> ?v" by (rule le_value_zero_nonneg)
    ultimately show ?thesis
      using that(2) by (simp add: sint_sbintrunc' signed_take_bit_int_eq_self)
  qed
  with a show ?thesis by blast
qed

text \<open>
  The claim as stated fails twice: on the empty file a one-byte read returns \<open>- 1\<close>
  where zero-filling gives 0, and the four bytes \<open>00 00 00 80\<close> are read as
  \<open>- 2147483648\<close>, not as the unsigned value \<open>2147483648\<close>.
\<close>

theorem get_int_zero_fill_counterexample:
  "fst (get_int (open_in []) 0 1) = - 1 \<and> le_value byte_or_zero [] 0 1 = 0
   \<and> sint (fst (get_int (open_in [0, 0, 0, 128]) 0 4)) = - 2147483648
   \<and> le_value byte_or_zero [0, 0, 0, 128] 0 4 = 2147483648"
  by code_simp

theorem get_int_little_endian_witness:
  "\<not> failbit (open_in [70, 1, 0, 0]) \<and> (0::cint) \<le>s 0 \<and> (1::cint) \<le>s 4 \<and> (4::cint) \<le>s 4
   \<and> nat (sint (0::cint)) + nat (sint (4::cint)) \<le> length (content (open_in [70, 1, 0, 0]))
   \<and> le_value byte_or_zero (content (open_in [70, 1, 0, 0])) (nat (sint (0::cint))) (nat (sint (4::cint))) = 326
   \<and> sint (fst (get_int (open_in [70, 1, 0, 0]) 0 4)) = 326"
proof -
  have h: "\<not> failbit (open_in [70, 1, 0, 0])" "(0::cint) \<le>s 0" "(1::cint) \<le>s 4" "(4::cint) \<le>s 4"
    by (simp_all add: open_in_def word_sle_eq)
  have r: "nat (sint (0::cint)) + nat (sint (4::cint)) \<le> length (content (open_in [70, 1, 0, 0]))"
    by (simp add: open_in_def)
  have v: "le_value byte_or_zero (content (open_in [70, 1, 0, 0])) (nat (sint (0::cint))) (nat (sint (4::cint))) = 326"
    by code_simp
  have c: "le_value byte_or_zero (content (open_in [70, 1, 0, 0])) (nat (sint (0::cint))) (nat (sint (4::cint))) < 2 ^ 31"
    by (simp only: v) simp
  from get_int_little_endian [OF h, THEN conjunct2] r c
  have "sint (fst (get_int (open_in [70, 1, 0, 0]) 0 4))
      = le_value byte_or_zero (content (open_in [70, 1, 0, 0])) (nat (sint (0::cint))) (nat (sint (4::cint)))"
    by blast
  then have "sint (fst (get_int (open_in [70, 1, 0, 0]) 0 4)) = 326"
    by (simp only: v)
  with h r v show ?thesis by blast
qed

section \<open>Indexing, loops and grids\<close>

lemma bindR_Inr [simp]: "bindR (Inr x) f = f x"
  by (simp add: bindR_def)

lemma bindR_Inl [simp]: "bindR (Inl e) f = Inl e"
  by (simp add: bindR_def)

lemma sint_of_nat_small: "k < 2 ^ 31 \<Longrightarrow> sint (of_nat k :: cint) = int k"
  by (simp add: signed_of_nat signed_take_bit_int_eq_self)

lemma sint_of_int_small: "- (2 ^ 31) \<le> k \<Longrightarrow> k < 2 ^ 31 \<Longrightarrow> sint (word_of_int k :: cint) = k"
  by (simp add: sint_sbintrunc' signed_take_bit_int_eq_self)

lemma vat_nat: "k < length v \<Longrightarrow> k < 2 ^ 31 \<Longrightarrow> vat v (of_nat k) = Inr (v ! k)"
  by (simp add: vat_def word_sle_eq sint_of_nat_small)

lemma vset_nat: "k < length v \<Longrightarrow> k < 2 ^ 31 \<Longrightarrow> vset v (of_nat k) x = Inr (v[k := x])"
  by (simp add: vset_def word_sle_eq sint_of_nat_small)

lemma vat2_nat:
  "i < length m \<Longrightarrow> j < length (m ! i) \<Longrightarrow> i < 2 ^ 31 \<Longrightarrow> j < 2 ^ 31
   \<Longrightarrow> vat2 m (of_nat i) (of_nat j) = Inr (m ! i ! j)"
  by (simp add: vat2_def bindR_def vat_nat)

lemma vset2_nat:
  "i < length m \<Longrightarrow> j < length (m ! i) \<Longrightarrow> i < 2 ^ 31 \<Longrightarrow> j < 2 ^ 31
   \<Longrightarrow> vset2 m (of_nat i) (of_nat j) x = Inr (m[i := (m ! i)[j := x]])"
  by (simp add: vset2_def bindR_def vat_nat vset_nat)

lemma up_to_nat: "n < 2 ^ 31 \<Longrightarrow> up_to (of_nat n) = map of_nat [0..<n]"
  by (simp add: up_to_def sint_of_nat_small)

lemma iter_map: "iter (map f xs) body s = iter xs (\<lambda>k. body (f k)) s"
  by (induction xs arbitrary: s) (simp_all split: sum.splits)

lemma iter_map_fun: "iter (map f xs) body = iter xs (\<lambda>k. body (f k))"
  by (rule ext) (rule iter_map)

lemma iter_append: "iter (xs @ ys) body s = bindR (iter xs body s) (iter ys body)"
  by (induction xs arbitrary: s) (simp_all add: bindR_def split: sum.splits)

lemma iter_upt_inv:
  assumes "P 0 s"
    and "\<And>k t. k < n \<Longrightarrow> P k t \<Longrightarrow> \<exists>t'. body k t = Inr t' \<and> P (Suc k) t'"
  shows "\<exists>t. iter [0..<n] body s = Inr t \<and> P n t"
  using assms(2)
proof (induction n)
  case 0
  with assms(1) show ?case by simp
next
  case (Suc n)
  then obtain t where t: "iter [0..<n] body s = Inr t" "P n t"
    by (metis less_Suc_eq)
  from Suc.prems [of n t] t(2) obtain t' where "body n t = Inr t'" "P (Suc n) t'"
    by auto
  with t show ?case by (simp add: iter_append bindR_def)
qed


lemma has_dims_upd2: "has_dims m A B \<Longrightarrow> has_dims (upd2 m a b x) A B"
proof (cases "a < length m")
  case True
  assume "has_dims m A B"
  with True show ?thesis
    by (auto simp: has_dims_def upd2_def dest!: set_update_subset_insert [THEN subsetD])
next
  case False
  assume "has_dims m A B"
  with False show ?thesis by (simp add: upd2_def list_update_beyond)
qed

lemma nth_upd2:
  "has_dims m A B \<Longrightarrow> a < A \<Longrightarrow> b < B
   \<Longrightarrow> upd2 m a b x ! a' ! b' = (if a' = a \<and> b' = b then x else m ! a' ! b')"
  by (auto simp: has_dims_def upd2_def nth_list_update)

lemma has_dims_nth: "has_dims m A B \<Longrightarrow> a < A \<Longrightarrow> length (m ! a) = B"
  by (simp add: has_dims_def)

lemma grid_eqI:
  assumes "has_dims m A B" and "has_dims m' A B"
    and "\<And>a b. a < A \<Longrightarrow> b < B \<Longrightarrow> m ! a ! b = m' ! a ! b"
  shows "m = m'"
proof (rule nth_equalityI)
  show "length m = length m'" using assms(1,2) by (simp add: has_dims_def)
next
  fix a assume "a < length m"
  then have a: "a < A" using assms(1) by (simp add: has_dims_def)
  show "m ! a = m' ! a"
  proof (rule nth_equalityI)
    show "length (m ! a) = length (m' ! a)"
      using a assms(1,2) by (simp add: has_dims_nth)
  next
    fix b assume "b < length (m ! a)"
    then have "b < B" using a assms(1) by (simp add: has_dims_nth)
    with a show "m ! a ! b = m' ! a ! b" by (rule assms(3))
  qed
qed

lemma iter_product:
  "iter xs (\<lambda>r. iter ys (body r)) s = iter (List.product xs ys) (\<lambda>(r, c). body r c) s"
proof (induction xs arbitrary: s)
  case Nil
  show ?case by simp
next
  case (Cons x xs)
  show ?case
    by (simp add: iter_append iter_map bindR_def Cons.IH split: sum.splits)
qed

lemma scatter:
  assumes "I s0" and "has_dims (view s0) A B"
    and step: "\<And>k s. k \<in> set ks \<Longrightarrow> I s \<Longrightarrow> has_dims (view s) A B
        \<Longrightarrow> \<exists>s'. body k s = Inr s' \<and> I s' \<and> view s' = upd2 (view s) (pa k) (pb k) (g k)"
    and range: "\<And>k. k \<in> set ks \<Longrightarrow> pa k < A \<and> pb k < B"
    and inj: "inj_on (\<lambda>k. (pa k, pb k)) (set ks)"
  shows "\<exists>s'. iter ks body s0 = Inr s' \<and> I s' \<and> has_dims (view s') A B
           \<and> (\<forall>k \<in> set ks. view s' ! pa k ! pb k = g k)
           \<and> (\<forall>a b. (a, b) \<notin> (\<lambda>k. (pa k, pb k)) ` set ks \<longrightarrow> view s' ! a ! b = view s0 ! a ! b)"
  using assms
proof (induction ks arbitrary: s0)
  case Nil
  then show ?case by simp
next
  case (Cons k ks)
  from Cons.prems(3) [of k s0] Cons.prems(1,2)
  obtain s1 where s1: "body k s0 = Inr s1" "I s1" "view s1 = upd2 (view s0) (pa k) (pb k) (g k)"
    by auto
  have d1: "has_dims (view s1) A B"
    using Cons.prems(2) by (simp add: s1(3) has_dims_upd2)
  have "\<exists>s'. iter ks body s1 = Inr s' \<and> I s' \<and> has_dims (view s') A B
           \<and> (\<forall>k \<in> set ks. view s' ! pa k ! pb k = g k)
           \<and> (\<forall>a b. (a, b) \<notin> (\<lambda>k. (pa k, pb k)) ` set ks \<longrightarrow> view s' ! a ! b = view s1 ! a ! b)"
  proof (rule Cons.IH [OF s1(2) d1])
    show "\<exists>s'. body j s = Inr s' \<and> I s' \<and> view s' = upd2 (view s) (pa j) (pb j) (g j)"
      if "j \<in> set ks" "I s" "has_dims (view s) A B" for j s
      using that Cons.prems(3) [of j s] by simp
    show "pa j < A \<and> pb j < B" if "j \<in> set ks" for j
      using that Cons.prems(4) [of j] by simp
    show "inj_on (\<lambda>k. (pa k, pb k)) (set ks)"
      using Cons.prems(5) by (simp add: inj_on_def)
  qed
  then obtain s' where s': "iter ks body s1 = Inr s'" "I s'" "has_dims (view s') A B"
      "\<forall>k \<in> set ks. view s' ! pa k ! pb k = g k"
      "\<forall>a b. (a, b) \<notin> (\<lambda>k. (pa k, pb k)) ` set ks \<longrightarrow> view s' ! a ! b = view s1 ! a ! b"
    by blast
  have rk: "pa k < A" "pb k < B" using Cons.prems(4) [of k] by simp_all
  have hk: "view s' ! pa k ! pb k = g k"
  proof (cases "(pa k, pb k) \<in> (\<lambda>k. (pa k, pb k)) ` set ks")
    case True
    then obtain j where j: "j \<in> set ks" "(pa j, pb j) = (pa k, pb k)" by auto
    with Cons.prems(5) have "j = k" by (auto simp: inj_on_def)
    with j(1) s'(4) show ?thesis by simp
  next
    case False
    with s'(5) have "view s' ! pa k ! pb k = view s1 ! pa k ! pb k" by simp
    also have "\<dots> = g k"
      using Cons.prems(2) rk by (simp add: s1(3) nth_upd2)
    finally show ?thesis .
  qed
  have frame: "view s' ! a ! b = view s0 ! a ! b"
    if "(a, b) \<notin> (\<lambda>k. (pa k, pb k)) ` set (k # ks)" for a b
  proof -
    from that have n: "(a, b) \<notin> (\<lambda>k. (pa k, pb k)) ` set ks" and ne: "\<not> (a = pa k \<and> b = pb k)"
      by auto
    from n s'(5) have "view s' ! a ! b = view s1 ! a ! b" by simp
    also have "\<dots> = view s0 ! a ! b"
      using Cons.prems(2) rk ne by (auto simp: s1(3) nth_upd2)
    finally show ?thesis .
  qed
  show ?case
    using s1(1) s' hk frame by auto
qed

section \<open>The per-pixel transforms\<close>

lemma nonempty_rect_dims:
  assumes "nonempty_rect m"
  shows "has_dims m (length m) (length (hd m))" and "m \<noteq> []" and "hd m \<noteq> []"
proof -
  from assms have 1: "m \<noteq> []" and 2: "hd m \<noteq> []"
    and 3: "\<forall>row \<in> set m. length row = length (hd m)"
    unfolding nonempty_rect_def by blast+
  show "has_dims m (length m) (length (hd m))"
    unfolding has_dims_def using 3 by blast
  show "m \<noteq> []" by (rule 1)
  show "hd m \<noteq> []" by (rule 2)
qed

lemma size_image_ok:
  assumes "m \<noteq> []"
  shows "size_image m = Inr (of_nat (length m), of_nat (length (hd m)))"
  using assms by (simp add: size_image_def vat_def bindR_def hd_conv_nth)

lemma make_image_ok:
  "R < 2 ^ 31 \<Longrightarrow> C < 2 ^ 31
   \<Longrightarrow> make_image (of_nat R) (of_nat C) = Inr (replicate R (replicate C zero_pixel))"
  by (simp add: make_image_def make_vector_def bindR_def word_sless_alt sint_of_nat_small)

lemma has_dims_replicate: "has_dims (replicate R (replicate C x)) R C"
  by (simp add: has_dims_def)

lemma has_dims_map_map: "has_dims m R C \<Longrightarrow> has_dims (map (map f) m) R C"
  by (auto simp: has_dims_def)

lemma pixel_loop:
  fixes img d0 :: Image and f :: "Pixel \<Rightarrow> Pixel"
  assumes img: "has_dims img R C" and d0: "has_dims d0 R C" and R: "R < 2 ^ 31" and C: "C < 2 ^ 31"
  shows "iter (up_to (of_nat R)) (\<lambda>row. iter (up_to (of_nat C)) (\<lambda>col new_image.
           bindR (vat2 img row col) (\<lambda>p. vset2 new_image row col (f p)))) d0
         = Inr (map (map f) img)"
proof -
  let ?body = "\<lambda>(r, c) new_image.
           bindR (vat2 img (of_nat r) (of_nat c)) (\<lambda>p. vset2 new_image (of_nat r) (of_nat c) (f p))"
  have "\<exists>s'. iter (List.product [0..<R] [0..<C]) ?body d0 = Inr s' \<and> True \<and> has_dims (id s') R C
           \<and> (\<forall>k \<in> set (List.product [0..<R] [0..<C]). id s' ! fst k ! snd k = f (img ! fst k ! snd k))
           \<and> (\<forall>a b. (a, b) \<notin> (\<lambda>k. (fst k, snd k)) ` set (List.product [0..<R] [0..<C])
                \<longrightarrow> id s' ! a ! b = id d0 ! a ! b)"
  proof (rule scatter [where I = "\<lambda>_. True"])
    show "has_dims (id d0) R C" using d0 by simp
  next
    fix k :: "nat \<times> nat" and s :: Image
    assume k: "k \<in> set (List.product [0..<R] [0..<C])" and s: "has_dims (id s) R C"
    obtain r c where rc: "k = (r, c)" by (cases k)
    with k have lt: "r < R" "c < C" by auto
    have "vat2 img (of_nat r) (of_nat c) = Inr (img ! r ! c)"
      using img lt R C by (intro vat2_nat) (auto simp: has_dims_def)
    moreover have "vset2 s (of_nat r) (of_nat c) x = Inr (upd2 s r c x)" for x
      unfolding upd2_def using s lt R C by (intro vset2_nat) (auto simp: has_dims_def)
    ultimately show "\<exists>s'. ?body k s = Inr s' \<and> True
        \<and> id s' = upd2 (id s) (fst k) (snd k) (f (img ! fst k ! snd k))"
      by (simp add: rc bindR_def)
  next
    fix k assume "k \<in> set (List.product [0..<R] [0..<C])"
    then show "fst k < R \<and> snd k < C" by auto
  next
    show "inj_on (\<lambda>k. (fst k, snd k)) (set (List.product [0..<R] [0..<C]))"
      by (simp add: inj_on_def)
  qed simp
  then obtain s' where s': "iter (List.product [0..<R] [0..<C]) ?body d0 = Inr s'"
      "has_dims s' R C" "\<forall>r<R. \<forall>c<C. s' ! r ! c = f (img ! r ! c)"
    by force
  have "s' = map (map f) img"
  proof (rule grid_eqI [OF s'(2) has_dims_map_map [OF img]])
    fix a b assume "a < R" "b < C"
    with s'(3) img show "s' ! a ! b = map (map f) img ! a ! b"
      by (simp add: has_dims_def)
  qed
  with s'(1) have "iter [0..<R] (\<lambda>r. iter [0..<C] (\<lambda>c new_image.
           bindR (vat2 img (of_nat r) (of_nat c)) (\<lambda>p. vset2 new_image (of_nat r) (of_nat c) (f p)))) d0
         = Inr (map (map f) img)"
    by (simp only: iter_product)
  then show ?thesis
    by (simp only: up_to_nat [OF R] up_to_nat [OF C] iter_map_fun)
qed

lemma process_3_map:
  assumes "nonempty_rect img" and "fits_int img"
  shows "process_3 img = Inr (map (map gray_pixel) img)"
proof -
  from assms(1) have ne: "img \<noteq> []" and d: "has_dims img (length img) (length (hd img))"
    by (simp_all add: nonempty_rect_dims)
  from assms(2) have b: "length img < 2 ^ 31" "length (hd img) < 2 ^ 31"
    by (simp_all add: fits_int_def)
  show ?thesis
    by (simp add: process_3_def size_image_ok [OF ne] make_image_ok [OF b]
        pixel_loop [OF d has_dims_replicate b])
qed

lemma process_10_map:
  assumes "nonempty_rect img" and "fits_int img"
  shows "process_10 img = Inr (map (map threshold_pixel) img)"
proof -
  from assms(1) have ne: "img \<noteq> []" and d: "has_dims img (length img) (length (hd img))"
    by (simp_all add: nonempty_rect_dims)
  from assms(2) have b: "length img < 2 ^ 31" "length (hd img) < 2 ^ 31"
    by (simp_all add: fits_int_def)
  show ?thesis
    by (simp add: process_10_def size_image_ok [OF ne] make_image_ok [OF b]
        pixel_loop [OF d has_dims_replicate b])
qed

lemma gray_pixel_equal:
  "red (gray_pixel p) = green (gray_pixel p) \<and> green (gray_pixel p) = blue (gray_pixel p)"
  by (simp add: gray_pixel_def rbg_pixel_def new_pixel_def zero_pixel_def Let_def)

lemma gray_pixel_value:
  assumes "pixel_in_range p"
  shows "sint (red (gray_pixel p)) = (sint (red p) + sint (green p) + sint (blue p)) div 3"
proof -
  let ?r = "sint (red p)" and ?g = "sint (green p)" and ?b = "sint (blue p)"
  from assms have rg: "0 \<le> ?r" "?r \<le> 255" "0 \<le> ?g" "?g \<le> 255" "0 \<le> ?b" "?b \<le> 255"
    by (simp_all add: pixel_in_range_def in_byte_range_def word_sle_eq)
  have s: "sint (red p + blue p + green p) = ?r + ?g + ?b"
    using rg by (simp add: sint_word_ariths signed_take_bit_int_eq_self)
  have d: "(?r + ?g + ?b) sdiv 3 = (?r + ?g + ?b) div 3"
    using rg by (simp add: signed_divide_int_def sgn_if)
  have "sint (c_div (red p + blue p + green p) 3) = (?r + ?g + ?b) div 3"
    unfolding c_div_def s using rg by (simp add: d sint_of_int_small)
  then show ?thesis
    by (simp add: gray_pixel_def rbg_pixel_def new_pixel_def zero_pixel_def Let_def)
qed

lemma cint_eq_iff: "a = b \<longleftrightarrow> sint a = sint b" for a b :: cint
  by (auto intro: signed_word_eqI)

lemma c_max_cases:
  "(c_max (c_max r b) g = r) = (sint b \<le> sint r \<and> sint g \<le> sint r)"
  "(c_max (c_max r b) g = g) = (sint b \<le> sint g \<and> sint r \<le> sint g)"
  by (auto simp: c_max_def word_sless_alt cint_eq_iff)

lemma threshold_pixel_spec: "threshold_pixel p = threshold_spec p"
proof -
  have s: "red p + blue p + green p = red p + green p + blue p" by (simp add: add_ac)
  show ?thesis
    unfolding threshold_pixel_def threshold_spec_def rbg_pixel_def new_pixel_def zero_pixel_def
      Let_def is_max_channel_def prod.case c_max_cases s word_sle_eq
    by auto
qed


lemma map_map_nth:
  assumes "has_dims m R C" and "r < R" and "c < C"
  shows "map (map f) m ! r ! c = f (m ! r ! c)"
  using assms by (simp add: has_dims_def)

text \<open>
  Claim C7. On a non-empty rectangular image with channel values from 0 to 255,
  \<open>process_3\<close> returns an image of the same dimensions in which every pixel has
  red = green = blue, equal to the channel sum of the original pixel divided by 3 and
  rounded down. The image is one the program can hold: its numbers of rows and columns
  fit the \<^verbatim>\<open>int\<close> variables that the function reads them into (\<open>fits_int\<close>), as they do
  for every image built by \<open>make_image\<close>, the only constructor of images in the source.
\<close>

theorem process_3_grayscale:
  assumes "nonempty_rect img" and "fits_int img" and "image_in_range img"
  shows "\<exists>out. process_3 img = Inr out \<and> length out = length img
     \<and> (\<forall>row < length img. length (out ! row) = length (img ! row)
          \<and> (\<forall>col < length (img ! row).
                red (out ! row ! col) = green (out ! row ! col)
              \<and> green (out ! row ! col) = blue (out ! row ! col)
              \<and> sint (red (out ! row ! col))
                  = (sint (red (img ! row ! col)) + sint (green (img ! row ! col))
                     + sint (blue (img ! row ! col))) div 3))"
proof -
  have p: "process_3 img = Inr (map (map gray_pixel) img)"
    using assms(1,2) by (rule process_3_map)
  have cell: "red (map (map gray_pixel) img ! row ! col) = green (map (map gray_pixel) img ! row ! col)
      \<and> green (map (map gray_pixel) img ! row ! col) = blue (map (map gray_pixel) img ! row ! col)
      \<and> sint (red (map (map gray_pixel) img ! row ! col))
          = (sint (red (img ! row ! col)) + sint (green (img ! row ! col))
             + sint (blue (img ! row ! col))) div 3"
    if "row < length img" and "col < length (img ! row)" for row col
  proof -
    from that have "img ! row \<in> set img" "img ! row ! col \<in> set (img ! row)"
      by simp_all
    with assms(3) have "pixel_in_range (img ! row ! col)"
      unfolding image_in_range_def by blast
    then have v: "sint (red (gray_pixel (img ! row ! col)))
          = (sint (red (img ! row ! col)) + sint (green (img ! row ! col))
             + sint (blue (img ! row ! col))) div 3"
      by (rule gray_pixel_value)
    have m: "map (map gray_pixel) img ! row ! col = gray_pixel (img ! row ! col)"
      using that by simp
    show ?thesis
      unfolding m using gray_pixel_equal [of "img ! row ! col"] v by blast
  qed
  show ?thesis
  proof (intro exI conjI allI impI)
    show "process_3 img = Inr (map (map gray_pixel) img)" by (rule p)
  qed (simp, simp, (use cell in blast)+)
qed

theorem process_3_grayscale_witness:
  "nonempty_rect [[\<lparr>red = 10, green = 20, blue = 32\<rparr>]]
   \<and> fits_int [[\<lparr>red = 10, green = 20, blue = 32\<rparr>]]
   \<and> image_in_range [[\<lparr>red = 10, green = 20, blue = 32\<rparr>]]
   \<and> process_3 [[\<lparr>red = 10, green = 20, blue = 32\<rparr>]] = Inr [[\<lparr>red = 20, green = 20, blue = 20\<rparr>]]"
proof -
  let ?img = "[[\<lparr>red = 10, green = 20, blue = 32\<rparr>]]"
  have h: "nonempty_rect ?img" "fits_int ?img" "image_in_range ?img"
    by (simp_all add: nonempty_rect_def fits_int_def image_in_range_def pixel_in_range_def
        in_byte_range_def word_sle_eq)
  from process_3_grayscale [OF h] obtain out where out: "process_3 ?img = Inr out"
    "length out = 1" "length (out ! 0) = 1"
    "red (out ! 0 ! 0) = green (out ! 0 ! 0)" "green (out ! 0 ! 0) = blue (out ! 0 ! 0)"
    "sint (red (out ! 0 ! 0)) = 20"
    by auto
  from out(6) have "red (out ! 0 ! 0) = 20"
    by (simp add: cint_eq_iff)
  with out(4,5) have "out ! 0 ! 0 = \<lparr>red = 20, green = 20, blue = 20\<rparr>"
    by (cases "out ! 0 ! 0") simp
  with out(2,3) have "out = [[\<lparr>red = 20, green = 20, blue = 20\<rparr>]]"
    by (metis One_nat_def length_0_conv length_Suc_conv nth_Cons_0)
  with out(1) h show ?thesis by simp
qed

text \<open>
  Claim C8. On a non-empty rectangular image, \<open>process_10\<close> returns an image of the same
  dimensions in which every pixel is the threshold colour of the original pixel: white
  for a channel sum of at least 550, else black for a sum of at most 150, else pure red,
  green or blue for the largest channel, red before green before blue. The image is one
  the program can hold: its numbers of rows and columns fit the \<^verbatim>\<open>int\<close> variables that
  the function reads them into (\<open>fits_int\<close>).
\<close>

theorem process_10_threshold:
  assumes "nonempty_rect img" and "fits_int img"
  shows "\<exists>out. process_10 img = Inr out \<and> length out = length img
     \<and> (\<forall>row < length img. length (out ! row) = length (img ! row)
          \<and> (\<forall>col < length (img ! row). out ! row ! col = threshold_spec (img ! row ! col)))"
proof -
  have "process_10 img = Inr (map (map threshold_pixel) img)"
    using assms by (rule process_10_map)
  then show ?thesis by (simp add: threshold_pixel_spec)
qed

theorem process_10_threshold_witness:
  "nonempty_rect [[\<lparr>red = 100, green = 200, blue = 200\<rparr>, \<lparr>red = 250, green = 200, blue = 100\<rparr>]]
   \<and> fits_int [[\<lparr>red = 100, green = 200, blue = 200\<rparr>, \<lparr>red = 250, green = 200, blue = 100\<rparr>]]
   \<and> process_10 [[\<lparr>red = 100, green = 200, blue = 200\<rparr>, \<lparr>red = 250, green = 200, blue = 100\<rparr>]]
       = Inr [[\<lparr>red = 0, green = 255, blue = 0\<rparr>, \<lparr>red = 255, green = 255, blue = 255\<rparr>]]"
proof -
  let ?img = "[[\<lparr>red = 100, green = 200, blue = 200\<rparr>, \<lparr>red = 250, green = 200, blue = 100\<rparr>]]"
  have h: "nonempty_rect ?img" "fits_int ?img"
    by (simp_all add: nonempty_rect_def fits_int_def)
  from process_10_threshold [OF h] obtain out where o: "process_10 ?img = Inr out"
    "length out = length ?img"
    and q: "\<forall>row < length ?img. length (out ! row) = length (?img ! row)
          \<and> (\<forall>col < length (?img ! row). out ! row ! col = threshold_spec (?img ! row ! col))"
    by blast
  from q have q0: "length (out ! 0) = 2"
    and q1: "\<forall>col < 2. out ! 0 ! col = threshold_spec (?img ! 0 ! col)"
    by simp_all
  from q1 have "out ! 0 ! 0 = threshold_spec (?img ! 0 ! 0)" "out ! 0 ! 1 = threshold_spec (?img ! 0 ! 1)"
    by simp_all
  with o q0 have out: "process_10 ?img = Inr out"
    "length out = 1" "length (out ! 0) = 2"
    "out ! 0 ! 0 = threshold_spec \<lparr>red = 100, green = 200, blue = 200\<rparr>"
    "out ! 0 ! 1 = threshold_spec \<lparr>red = 250, green = 200, blue = 100\<rparr>"
    by simp_all
  have "out = [out ! 0]" using out(2)
    by (metis One_nat_def length_0_conv length_Suc_conv nth_Cons_0)
  moreover have "out ! 0 = [out ! 0 ! 0, out ! 0 ! 1]"
    using out(3) by (intro nth_equalityI) (auto simp: less_Suc_eq numeral_2_eq_2)
  ultimately have "out = [[out ! 0 ! 0, out ! 0 ! 1]]" by simp
  then have "out = [[\<lparr>red = 0, green = 255, blue = 0\<rparr>, \<lparr>red = 255, green = 255, blue = 255\<rparr>]]"
    unfolding out(4,5) by (simp add: threshold_spec_def is_max_channel_def word_sle_eq)
  with out(1) h show ?thesis by simp
qed

section \<open>Rotation\<close>

lemma copy_loop:
  assumes R: "R < 2 ^ 31" and C: "C < 2 ^ 31"
    and I0: "I s0" and d0: "has_dims (view s0) A B"
    and step: "\<And>r c s. r < R \<Longrightarrow> c < C \<Longrightarrow> I s \<Longrightarrow> has_dims (view s) A B
        \<Longrightarrow> \<exists>s'. body (of_nat r) (of_nat c) s = Inr s' \<and> I s'
               \<and> view s' = upd2 (view s) (pa r c) (pb r c) (g r c)"
    and range: "\<And>r c. r < R \<Longrightarrow> c < C \<Longrightarrow> pa r c < A \<and> pb r c < B"
    and inj: "\<And>r c r' c'. r < R \<Longrightarrow> c < C \<Longrightarrow> r' < R \<Longrightarrow> c' < C
        \<Longrightarrow> pa r c = pa r' c' \<Longrightarrow> pb r c = pb r' c' \<Longrightarrow> r = r' \<and> c = c'"
  shows "\<exists>s'. iter (up_to (of_nat R)) (\<lambda>row. iter (up_to (of_nat C)) (body row)) s0 = Inr s'
           \<and> I s' \<and> has_dims (view s') A B
           \<and> (\<forall>r < R. \<forall>c < C. view s' ! pa r c ! pb r c = g r c)"
proof -
  let ?ks = "List.product [0..<R] [0..<C]"
  let ?body = "\<lambda>(r, c). body (of_nat r) (of_nat c)"
  have "\<exists>s'. iter ?ks ?body s0 = Inr s' \<and> I s' \<and> has_dims (view s') A B
           \<and> (\<forall>k \<in> set ?ks. view s' ! (\<lambda>(r, c). pa r c) k ! (\<lambda>(r, c). pb r c) k = (\<lambda>(r, c). g r c) k)
           \<and> (\<forall>a b. (a, b) \<notin> (\<lambda>k. ((\<lambda>(r, c). pa r c) k, (\<lambda>(r, c). pb r c) k)) ` set ?ks
                \<longrightarrow> view s' ! a ! b = view s0 ! a ! b)"
  proof (rule scatter [where I = I and view = view and A = A and B = B
        and pa = "\<lambda>(r, c). pa r c" and pb = "\<lambda>(r, c). pb r c" and g = "\<lambda>(r, c). g r c"])
    show "I s0" by (rule I0)
  next
    show "has_dims (view s0) A B" by (rule d0)
  next
    fix k s
    assume a: "k \<in> set ?ks" "I s" "has_dims (view s) A B"
    obtain r c where k: "k = (r, c)" by (cases k)
    with a(1) have "r < R" "c < C" by simp_all
    from step [OF this a(2,3)]
    show "\<exists>s'. ?body k s = Inr s' \<and> I s'
        \<and> view s' = upd2 (view s) ((\<lambda>(r, c). pa r c) k) ((\<lambda>(r, c). pb r c) k) ((\<lambda>(r, c). g r c) k)"
      by (simp add: k)
  next
    fix k assume a: "k \<in> set ?ks"
    obtain r c where k: "k = (r, c)" by (cases k)
    with a have "r < R" "c < C" by simp_all
    from range [OF this]
    show "(\<lambda>(r, c). pa r c) k < A \<and> (\<lambda>(r, c). pb r c) k < B"
      by (simp add: k)
  next
    show "inj_on (\<lambda>k. ((\<lambda>(r, c). pa r c) k, (\<lambda>(r, c). pb r c) k)) (set ?ks)"
      unfolding inj_on_def using inj by (auto simp: split_def)
  qed
  then obtain s' where s': "iter ?ks ?body s0 = Inr s'" "I s'" "has_dims (view s') A B"
      "\<forall>r < R. \<forall>c < C. view s' ! pa r c ! pb r c = g r c"
    by force
  from s'(1) have "iter [0..<R] (\<lambda>r. iter [0..<C] (\<lambda>c. body (of_nat r) (of_nat c))) s0 = Inr s'"
    by (simp only: iter_product)
  then have "iter (up_to (of_nat R)) (\<lambda>row. iter (up_to (of_nat C)) (body row)) s0 = Inr s'"
    by (simp only: up_to_nat [OF R] up_to_nat [OF C] iter_map_fun)
  with s' show ?thesis by blast
qed


lemma rot_index: "c < C \<Longrightarrow> (of_nat C - 1) - of_nat c = (of_nat (C - 1 - c) :: cint)"
  by (simp add: of_nat_diff)

lemma hd_dims: "has_dims m R C \<Longrightarrow> 0 < R \<Longrightarrow> length (hd m) = C"
  by (cases m) (auto simp: has_dims_def)

lemma rot_ccw_dims:
  assumes "has_dims m R C" and "0 < R"
  shows "has_dims (rot_ccw m) C R"
  using assms by (simp add: rot_ccw_def has_dims_def hd_dims [OF assms])

lemma rot_ccw_nth:
  assumes "has_dims m R C" and "0 < R" and "a < C" and "b < R"
  shows "rot_ccw m ! a ! b = m ! b ! (C - 1 - a)"
proof -
  have l: "length m = R" "length (hd m) = C"
    using assms(1,2) by (simp_all add: hd_dims) (simp add: has_dims_def)
  show ?thesis
    using assms(3,4) by (simp add: rot_ccw_def l)
qed

lemma rotate_first_loop:
  fixes img d0 :: Image
  assumes img: "has_dims img R C" and d0: "has_dims d0 C R"
    and R: "R < 2 ^ 31" and C: "C < 2 ^ 31" and pos: "0 < R"
  shows "iter (up_to (of_nat R)) (\<lambda>row. iter (up_to (of_nat C)) (rotate_first img (of_nat C) row)) d0
         = Inr (rot_ccw img)"
proof -
  have "\<exists>s'. iter (up_to (of_nat R)) (\<lambda>row. iter (up_to (of_nat C)) (rotate_first img (of_nat C) row)) d0 = Inr s'
           \<and> True \<and> has_dims (id s') C R
           \<and> (\<forall>r < R. \<forall>c < C. id s' ! (C - 1 - c) ! r = img ! r ! c)"
  proof (rule copy_loop [where I = "\<lambda>_. True" and view = id and A = C and B = R
        and pa = "\<lambda>r c. C - 1 - c" and pb = "\<lambda>r c. r" and g = "\<lambda>r c. img ! r ! c", OF R C])
    show "has_dims (id d0) C R" using d0 by simp
  next
    fix r c and s :: Image
    assume lt: "r < R" "c < C" and s: "has_dims (id s) C R"
    have rd: "vat2 img (of_nat r) (of_nat c) = Inr (img ! r ! c)"
      using img lt R C by (intro vat2_nat) (auto simp: has_dims_def)
    have "vset2 s (of_nat (C - 1 - c)) (of_nat r) x = Inr (upd2 s (C - 1 - c) r x)" for x
      unfolding upd2_def using s lt R C by (intro vset2_nat) (auto simp: has_dims_def)
    with rd show "\<exists>s'. rotate_first img (of_nat C) (of_nat r) (of_nat c) s = Inr s' \<and> True
        \<and> id s' = upd2 (id s) (C - 1 - c) r (img ! r ! c)"
      by (simp add: rotate_first_def rot_index [OF lt(2)])
  next
    fix r c r' c' :: nat
    assume "r < R" "c < C" "r' < R" "c' < C" "C - 1 - c = C - 1 - c'" "r = r'"
    then show "r = r' \<and> c = c'" by auto
  qed auto
  then obtain s' where s': "iter (up_to (of_nat R)) (\<lambda>row. iter (up_to (of_nat C)) (rotate_first img (of_nat C) row)) d0 = Inr s'"
     "has_dims s' C R" "\<forall>r < R. \<forall>c < C. s' ! (C - 1 - c) ! r = img ! r ! c"
    by auto
  have "s' = rot_ccw img"
  proof (rule grid_eqI [OF s'(2) rot_ccw_dims [OF img pos]])
    fix a b assume ab: "a < C" "b < R"
    then have "C - 1 - a < C" by simp
    with s'(3) ab(2) have "s' ! (C - 1 - (C - 1 - a)) ! b = img ! b ! (C - 1 - a)"
      by blast
    moreover have "C - 1 - (C - 1 - a) = a" using ab by simp
    ultimately show "s' ! a ! b = rot_ccw img ! a ! b"
      using ab by (simp add: rot_ccw_nth [OF img pos])
  qed
  with s'(1) show ?thesis by simp
qed


lemma rotate_next_even_loop:
  fixes n m0 :: Image
  assumes ev: "c_mod i 2 = 0" and n: "has_dims n C R" and m0: "has_dims m0 R C"
    and R: "R < 2 ^ 31" and C: "C < 2 ^ 31" and pos: "0 < C"
  shows "iter (up_to (of_nat R)) (\<lambda>row. iter (up_to (of_nat C)) (rotate_next (of_nat R) (of_nat C) i row)) (n, m0)
         = Inr (n, rot_ccw n)"
proof -
  have "\<exists>s'. iter (up_to (of_nat R)) (\<lambda>row. iter (up_to (of_nat C)) (rotate_next (of_nat R) (of_nat C) i row)) (n, m0) = Inr s'
           \<and> fst s' = n \<and> has_dims (snd s') R C
           \<and> (\<forall>r < R. \<forall>c < C. snd s' ! (R - 1 - r) ! c = n ! c ! r)"
  proof (rule copy_loop [where I = "\<lambda>s. fst s = n" and view = snd and A = R and B = C
        and pa = "\<lambda>r c. R - 1 - r" and pb = "\<lambda>r c. c" and g = "\<lambda>r c. n ! c ! r", OF R C])
    show "fst (n, m0) = n" by simp
  next
    show "has_dims (snd (n, m0)) R C" using m0 by simp
  next
    fix r c and s :: "Image \<times> Image"
    assume lt: "r < R" "c < C" and f: "fst s = n" and d: "has_dims (snd s) R C"
    obtain m where s: "s = (n, m)" using f by (cases s) simp
    with d have m: "has_dims m R C" by simp
    have rd: "vat2 n (of_nat c) (of_nat r) = Inr (n ! c ! r)"
      using n lt R C by (intro vat2_nat) (auto simp: has_dims_def)
    have "vset2 m (of_nat (R - 1 - r)) (of_nat c) x = Inr (upd2 m (R - 1 - r) c x)" for x
      unfolding upd2_def using m lt R C by (intro vset2_nat) (auto simp: has_dims_def)
    with rd show "\<exists>s'. rotate_next (of_nat R) (of_nat C) i (of_nat r) (of_nat c) s = Inr s' \<and> fst s' = n
        \<and> snd s' = upd2 (snd s) (R - 1 - r) c (n ! c ! r)"
      by (simp add: rotate_next_def ev s rot_index [OF lt(1)])
  next
    fix r c r' c' :: nat
    assume "r < R" "c < C" "r' < R" "c' < C" "R - 1 - r = R - 1 - r'" "c = c'"
    then show "r = r' \<and> c = c'" by auto
  qed auto
  then obtain s' where s': "iter (up_to (of_nat R)) (\<lambda>row. iter (up_to (of_nat C)) (rotate_next (of_nat R) (of_nat C) i row)) (n, m0) = Inr s'"
     "fst s' = n" "has_dims (snd s') R C" "\<forall>r < R. \<forall>c < C. snd s' ! (R - 1 - r) ! c = n ! c ! r"
    by auto
  have "snd s' = rot_ccw n"
  proof (rule grid_eqI [OF s'(3) rot_ccw_dims [OF n pos]])
    fix a b assume ab: "a < R" "b < C"
    then have "R - 1 - a < R" by simp
    with s'(4) ab(2) have "snd s' ! (R - 1 - (R - 1 - a)) ! b = n ! b ! (R - 1 - a)"
      by blast
    moreover have "R - 1 - (R - 1 - a) = a" using ab by simp
    ultimately show "snd s' ! a ! b = rot_ccw n ! a ! b"
      using ab by (simp add: rot_ccw_nth [OF n pos])
  qed
  with s'(2) have "s' = (n, rot_ccw n)" by (cases s') simp
  with s'(1) show ?thesis by simp
qed

lemma rotate_next_odd_loop:
  fixes n0 m :: Image
  assumes od: "c_mod i 2 \<noteq> 0" and m: "has_dims m R C" and n0: "has_dims n0 C R"
    and R: "R < 2 ^ 31" and C: "C < 2 ^ 31" and pos: "0 < R"
  shows "iter (up_to (of_nat R)) (\<lambda>row. iter (up_to (of_nat C)) (rotate_next (of_nat R) (of_nat C) i row)) (n0, m)
         = Inr (rot_ccw m, m)"
proof -
  have "\<exists>s'. iter (up_to (of_nat R)) (\<lambda>row. iter (up_to (of_nat C)) (rotate_next (of_nat R) (of_nat C) i row)) (n0, m) = Inr s'
           \<and> snd s' = m \<and> has_dims (fst s') C R
           \<and> (\<forall>r < R. \<forall>c < C. fst s' ! (C - 1 - c) ! r = m ! r ! c)"
  proof (rule copy_loop [where I = "\<lambda>s. snd s = m" and view = fst and A = C and B = R
        and pa = "\<lambda>r c. C - 1 - c" and pb = "\<lambda>r c. r" and g = "\<lambda>r c. m ! r ! c", OF R C])
    show "snd (n0, m) = m" by simp
  next
    show "has_dims (fst (n0, m)) C R" using n0 by simp
  next
    fix r c and s :: "Image \<times> Image"
    assume lt: "r < R" "c < C" and f: "snd s = m" and d: "has_dims (fst s) C R"
    obtain n where s: "s = (n, m)" using f by (cases s) simp
    with d have n: "has_dims n C R" by simp
    have rd: "vat2 m (of_nat r) (of_nat c) = Inr (m ! r ! c)"
      using m lt R C by (intro vat2_nat) (auto simp: has_dims_def)
    have "vset2 n (of_nat (C - 1 - c)) (of_nat r) x = Inr (upd2 n (C - 1 - c) r x)" for x
      unfolding upd2_def using n lt R C by (intro vset2_nat) (auto simp: has_dims_def)
    with rd show "\<exists>s'. rotate_next (of_nat R) (of_nat C) i (of_nat r) (of_nat c) s = Inr s' \<and> snd s' = m
        \<and> fst s' = upd2 (fst s) (C - 1 - c) r (m ! r ! c)"
      by (simp add: rotate_next_def od s rot_index [OF lt(2)])
  next
    fix r c r' c' :: nat
    assume "r < R" "c < C" "r' < R" "c' < C" "C - 1 - c = C - 1 - c'" "r = r'"
    then show "r = r' \<and> c = c'" by auto
  qed auto
  then obtain s' where s': "iter (up_to (of_nat R)) (\<lambda>row. iter (up_to (of_nat C)) (rotate_next (of_nat R) (of_nat C) i row)) (n0, m) = Inr s'"
     "snd s' = m" "has_dims (fst s') C R" "\<forall>r < R. \<forall>c < C. fst s' ! (C - 1 - c) ! r = m ! r ! c"
    by auto
  have "fst s' = rot_ccw m"
  proof (rule grid_eqI [OF s'(3) rot_ccw_dims [OF m pos]])
    fix a b assume ab: "a < C" "b < R"
    then have "C - 1 - a < C" by simp
    with s'(4) ab(2) have "fst s' ! (C - 1 - (C - 1 - a)) ! b = m ! b ! (C - 1 - a)"
      by blast
    moreover have "C - 1 - (C - 1 - a) = a" using ab by simp
    ultimately show "fst s' ! a ! b = rot_ccw m ! a ! b"
      using ab by (simp add: rot_ccw_nth [OF m pos])
  qed
  with s'(2) have "s' = (rot_ccw m, m)" by (cases s') simp
  with s'(1) show ?thesis by simp
qed

lemma c_mod_consts:
  "c_mod 1 2 = 1" "c_mod 2 2 = 0" "c_mod 3 2 = 1" "c_mod 1 4 = 1"
  by (simp_all add: c_mod_def signed_modulo_int_def)

lemma from_to_consts: "from_to 2 1 = []" "from_to 2 2 = [2]" "from_to 2 3 = [2, 3]"
  by (simp_all add: from_to_def upt_rec)

lemma rotate_90_turns:
  assumes img: "has_dims img R C" and R: "R < 2 ^ 31" and C: "C < 2 ^ 31"
    and posR: "0 < R" and posC: "0 < C"
  shows "c_mod n 4 = 1 \<Longrightarrow> rotate_90 img n = Inr (rot_ccw img)"
    and "c_mod n 4 = 2 \<Longrightarrow> rotate_90 img n = Inr (rot_ccw (rot_ccw img))"
    and "c_mod n 4 = 3 \<Longrightarrow> rotate_90 img n = Inr (rot_ccw (rot_ccw (rot_ccw img)))"
proof -
  have ne: "img \<noteq> []" using img posR by (auto simp: has_dims_def)
  have sz: "size_image img = Inr (of_nat R, of_nat C)"
    using img posR by (simp add: size_image_ok [OF ne] hd_dims [OF img posR]) (simp add: has_dims_def)
  note mk1 = make_image_ok [OF C R] and mk2 = make_image_ok [OF R C]
  note l1 = rotate_first_loop [OF img has_dims_replicate R C posR]
  have d1: "has_dims (rot_ccw img) C R" by (rule rot_ccw_dims [OF img posR])
  note l2 = rotate_next_even_loop [OF c_mod_consts(2) d1 has_dims_replicate R C posC]
  have d2: "has_dims (rot_ccw (rot_ccw img)) R C" by (rule rot_ccw_dims [OF d1 posC])
  note l3 = rotate_next_odd_loop [OF _ d2 d1 R C posR, of 3]
  show "c_mod n 4 = 1 \<Longrightarrow> rotate_90 img n = Inr (rot_ccw img)"
    by (simp add: rotate_90_def sz mk1 mk2 l1 from_to_consts c_mod_consts)
  show "c_mod n 4 = 2 \<Longrightarrow> rotate_90 img n = Inr (rot_ccw (rot_ccw img))"
    by (simp add: rotate_90_def sz mk1 mk2 l1 l2 from_to_consts c_mod_consts)
  show "c_mod n 4 = 3 \<Longrightarrow> rotate_90 img n = Inr (rot_ccw (rot_ccw (rot_ccw img)))"
    by (simp add: rotate_90_def sz mk1 mk2 l1 l2 l3 from_to_consts c_mod_consts)
qed


lemma rot_ccw_four:
  assumes m: "has_dims m R C" and posR: "0 < R" and posC: "0 < C"
  shows "rot_ccw (rot_ccw (rot_ccw (rot_ccw m))) = m"
proof -
  have d1: "has_dims (rot_ccw m) C R" by (rule rot_ccw_dims [OF m posR])
  have d2: "has_dims (rot_ccw (rot_ccw m)) R C" by (rule rot_ccw_dims [OF d1 posC])
  have d3: "has_dims (rot_ccw (rot_ccw (rot_ccw m))) C R" by (rule rot_ccw_dims [OF d2 posR])
  have d4: "has_dims (rot_ccw (rot_ccw (rot_ccw (rot_ccw m)))) R C" by (rule rot_ccw_dims [OF d3 posC])
  show ?thesis
  proof (rule grid_eqI [OF d4 m])
    fix a b assume ab: "a < R" "b < C"
    then have i: "R - 1 - a < R" "C - 1 - b < C" "R - 1 - (R - 1 - a) = a" "C - 1 - (C - 1 - b) = b"
      by simp_all
    have "rot_ccw (rot_ccw (rot_ccw (rot_ccw m))) ! a ! b = rot_ccw (rot_ccw (rot_ccw m)) ! b ! (R - 1 - a)"
      using ab by (rule rot_ccw_nth [OF d3 posC])
    also have "\<dots> = rot_ccw (rot_ccw m) ! (R - 1 - a) ! (C - 1 - b)"
      using ab(2) i(1) by (rule rot_ccw_nth [OF d2 posR])
    also have "\<dots> = rot_ccw m ! (C - 1 - b) ! (R - 1 - (R - 1 - a))"
      using i(1,2) by (rule rot_ccw_nth [OF d1 posC])
    also have "\<dots> = m ! (R - 1 - (R - 1 - a)) ! (C - 1 - (C - 1 - b))"
      using i(2) ab(1) by (simp only: i(3)) (rule rot_ccw_nth [OF m posR])
    finally show "rot_ccw (rot_ccw (rot_ccw (rot_ccw m))) ! a ! b = m ! a ! b"
      by (simp only: i(3,4))
  qed
qed

lemma nonempty_rect_iff:
  "nonempty_rect m \<longleftrightarrow> has_dims m (length m) (length (hd m)) \<and> 0 < length m \<and> 0 < length (hd m)"
  unfolding nonempty_rect_def has_dims_def by auto

lemma rot_ccw_ok:
  assumes "nonempty_rect m" and "fits_int m"
  shows "nonempty_rect (rot_ccw m)" and "fits_int (rot_ccw m)"
    and "length (rot_ccw m) = length (hd m)" and "length (hd (rot_ccw m)) = length m"
proof -
  from assms(1) have d: "has_dims m (length m) (length (hd m))" and p: "0 < length m" "0 < length (hd m)"
    by (simp_all add: nonempty_rect_iff)
  have d1: "has_dims (rot_ccw m) (length (hd m)) (length m)" by (rule rot_ccw_dims [OF d p(1)])
  then show l: "length (rot_ccw m) = length (hd m)" by (simp add: has_dims_def)
  show h: "length (hd (rot_ccw m)) = length m" by (rule hd_dims [OF d1 p(2)])
  show "nonempty_rect (rot_ccw m)"
    unfolding nonempty_rect_iff l h using d1 p by simp
  show "fits_int (rot_ccw m)"
    using assms(2) by (simp add: fits_int_def l h)
qed

lemma process_4_rot:
  assumes "nonempty_rect img" and "fits_int img"
  shows "process_4 img = Inr (rot_ccw img)"
proof -
  from assms(1) have d: "has_dims img (length img) (length (hd img))"
    and p: "0 < length img" "0 < length (hd img)"
    by (simp_all add: nonempty_rect_iff)
  from assms(2) have b: "length img < 2 ^ 31" "length (hd img) < 2 ^ 31"
    by (simp_all add: fits_int_def)
  show ?thesis
    unfolding process_4_def by (rule rotate_90_turns(1) [OF d b p c_mod_consts(4)])
qed

lemma repeatR_process_4:
  assumes "nonempty_rect img" and "fits_int img"
  shows "repeatR k process_4 img = Inr ((rot_ccw ^^ k) img)"
  using assms
proof (induction k arbitrary: img)
  case 0
  show ?case by simp
next
  case (Suc k)
  have "repeatR (Suc k) process_4 img = repeatR k process_4 (rot_ccw img)"
    by (simp add: process_4_rot [OF Suc.prems])
  also have "\<dots> = Inr ((rot_ccw ^^ k) (rot_ccw img))"
    by (rule Suc.IH [OF rot_ccw_ok(1,2) [OF Suc.prems]])
  finally show ?case by (simp add: funpow_swap1)
qed

lemma rot_ccw_period:
  assumes "nonempty_rect m"
  shows "(rot_ccw ^^ k) m = (rot_ccw ^^ (k mod 4)) m"
proof -
  from assms have d: "has_dims m (length m) (length (hd m))" and p: "0 < length m" "0 < length (hd m)"
    by (simp_all add: nonempty_rect_iff)
  have four: "(rot_ccw ^^ 4) m = m"
    using rot_ccw_four [OF d p] by (simp add: numeral_eq_Suc)
  have q: "(rot_ccw ^^ (4 * q)) m = m" for q
  proof (induction q)
    case 0
    show ?case by simp
  next
    case (Suc q)
    have "4 * Suc q = 4 * q + 4" by simp
    then have "(rot_ccw ^^ (4 * Suc q)) m = (rot_ccw ^^ (4 * q)) ((rot_ccw ^^ 4) m)"
      by (simp only: funpow_add o_apply)
    then show ?case by (simp only: four Suc.IH)
  qed
  have "k = k mod 4 + 4 * (k div 4)" by simp
  then have "(rot_ccw ^^ k) m = (rot_ccw ^^ (k mod 4 + 4 * (k div 4))) m" by simp
  also have "\<dots> = (rot_ccw ^^ (k mod 4)) ((rot_ccw ^^ (4 * (k div 4))) m)"
    by (simp only: funpow_add o_apply)
  finally show ?thesis by (simp only: q)
qed


lemma repeatR_4:
  "repeatR 4 f x = bindR (f x) (\<lambda>a. bindR (f a) (\<lambda>b. bindR (f b) (\<lambda>c. bindR (f c) Inr)))"
  by (simp add: numeral_eq_Suc bindR_def split: sum.splits)

lemma giant_column_faults:
  "nonempty_rect (replicate 2147483648 [zero_pixel])"
  "process_4 (replicate 2147483648 [zero_pixel]) = Inl LengthError"
  by (simp_all add: nonempty_rect_def process_4_def rotate_90_def c_mod_consts size_image_def
      vat_def make_image_def make_vector_def word_sle_eq word_sless_alt)

text \<open>
  Claim C2, as the code has it. On a non-empty rectangular image of \<open>R\<close> rows and \<open>C\<close>
  columns, both below \<open>2 ^ 31\<close>, \<open>process_4\<close> returns an image of \<open>C\<close> rows and \<open>R\<close>
  columns in which the source pixel at \<open>(row, col)\<close> is at \<open>(C - 1 - col, row)\<close>: the
  rotation is counter-clockwise.
\<close>

theorem process_4_positions:
  assumes "nonempty_rect img" and "fits_int img"
  shows "\<exists>out. process_4 img = Inr out \<and> length out = length (hd img)
     \<and> (\<forall>a < length (hd img). length (out ! a) = length img)
     \<and> (\<forall>row < length img. \<forall>col < length (hd img).
            out ! (length (hd img) - 1 - col) ! row = img ! row ! col)"
proof -
  from assms(1) have d: "has_dims img (length img) (length (hd img))"
    and p: "0 < length img" "0 < length (hd img)"
    by (simp_all add: nonempty_rect_iff)
  have d1: "has_dims (rot_ccw img) (length (hd img)) (length img)"
    by (rule rot_ccw_dims [OF d p(1)])
  have "rot_ccw img ! (length (hd img) - 1 - col) ! row = img ! row ! col"
    if "row < length img" "col < length (hd img)" for row col
  proof -
    from that have "length (hd img) - 1 - col < length (hd img)"
      and e: "length (hd img) - 1 - (length (hd img) - 1 - col) = col" by simp_all
    from rot_ccw_nth [OF d p(1) this(1) that(1)] show ?thesis by (simp only: e)
  qed
  moreover have "length (rot_ccw img ! a) = length img" if "a < length (hd img)" for a
    using d1 that by (rule has_dims_nth)
  moreover have "length (rot_ccw img) = length (hd img)"
    by (rule rot_ccw_ok(3) [OF assms])
  ultimately show ?thesis
    using process_4_rot [OF assms] by blast
qed

text \<open>
  The claim as stated fails on the one-row image of a red and a green pixel: the red
  pixel, source position \<open>(0, 0)\<close>, is not at the destination \<open>(0, 0)\<close> that a clockwise
  rotation gives it, but at \<open>(1, 0)\<close>. It also fails on an image of \<open>2 ^ 31\<close> rows, where
  the construction of the new image throws.
\<close>

theorem process_4_clockwise_counterexample:
  "process_4 [[\<lparr>red = 255, green = 0, blue = 0\<rparr>, \<lparr>red = 0, green = 255, blue = 0\<rparr>]]
     = Inr [[\<lparr>red = 0, green = 255, blue = 0\<rparr>], [\<lparr>red = 255, green = 0, blue = 0\<rparr>]]
   \<and> [[\<lparr>red = 0, green = 255, blue = 0\<rparr>], [\<lparr>red = 255, green = 0, blue = 0\<rparr>]] ! 0 ! (1 - 1 - 0)
       \<noteq> [[\<lparr>red = 255, green = 0, blue = 0\<rparr>, \<lparr>red = 0, green = 255, blue = (0::cint)\<rparr>]] ! 0 ! 0
   \<and> nonempty_rect (replicate 2147483648 [zero_pixel])
   \<and> process_4 (replicate 2147483648 [zero_pixel]) = Inl LengthError"
proof -
  have "process_4 [[\<lparr>red = 255, green = 0, blue = 0\<rparr>, \<lparr>red = 0, green = 255, blue = 0\<rparr>]]
     = Inr [[\<lparr>red = 0, green = 255, blue = 0\<rparr>], [\<lparr>red = 255, green = 0, blue = 0\<rparr>]]"
    by code_simp
  then show ?thesis
    by (simp add: giant_column_faults)
qed

theorem process_4_positions_witness:
  "nonempty_rect [[\<lparr>red = 255, green = 0, blue = 0\<rparr>, \<lparr>red = 0, green = 255, blue = 0\<rparr>]]
   \<and> fits_int [[\<lparr>red = 255, green = 0, blue = 0\<rparr>, \<lparr>red = 0, green = 255, blue = 0\<rparr>]]
   \<and> (\<exists>out. process_4 [[\<lparr>red = 255, green = 0, blue = 0\<rparr>, \<lparr>red = 0, green = 255, blue = 0\<rparr>]] = Inr out
        \<and> length out = 2 \<and> length (out ! 0) = 1 \<and> length (out ! 1) = 1
        \<and> out ! 1 ! 0 = \<lparr>red = 255, green = 0, blue = 0\<rparr>
        \<and> out ! 0 ! 0 = \<lparr>red = 0, green = 255, blue = 0\<rparr>)"
proof -
  let ?img = "[[\<lparr>red = 255, green = 0, blue = 0\<rparr>, \<lparr>red = 0, green = 255, blue = (0::cint)\<rparr>]]"
  have h: "nonempty_rect ?img" "fits_int ?img"
    by (simp_all add: nonempty_rect_def fits_int_def)
  from process_4_positions [OF h] obtain out where o: "process_4 ?img = Inr out"
    "length out = length (hd ?img)"
    and q1: "\<forall>a < length (hd ?img). length (out ! a) = length ?img"
    and q2: "\<forall>row < length ?img. \<forall>col < length (hd ?img).
            out ! (length (hd ?img) - 1 - col) ! row = ?img ! row ! col"
    by blast
  from q1 have "length (out ! 0) = 1" "length (out ! 1) = 1" by simp_all
  moreover have "out ! (length (hd ?img) - 1 - 0) ! 0 = ?img ! 0 ! 0"
    by (rule q2 [rule_format]) simp_all
  moreover have "out ! (length (hd ?img) - 1 - 1) ! 0 = ?img ! 0 ! 1"
    by (rule q2 [rule_format]) simp_all
  ultimately show ?thesis using h o by simp
qed

text \<open>
  Claim C6. On a non-empty rectangular image, four successive applications of
  \<open>process_4\<close> succeed and return the original image. The image is one the program can
  hold: its numbers of rows and columns fit the \<^verbatim>\<open>int\<close> variables that \<open>rotate_90\<close> reads
  them into (\<open>fits_int\<close>).
\<close>

theorem process_4_four_times:
  assumes "nonempty_rect img" and "fits_int img"
  shows "bindR (process_4 img) (\<lambda>a. bindR (process_4 a) (\<lambda>b. bindR (process_4 b) process_4)) = Inr img"
proof -
  from assms(1) have d: "has_dims img (length img) (length (hd img))"
    and p: "0 < length img" "0 < length (hd img)"
    by (simp_all add: nonempty_rect_iff)
  note r1 = rot_ccw_ok(1,2) [OF assms]
  note r2 = rot_ccw_ok(1,2) [OF r1]
  note r3 = rot_ccw_ok(1,2) [OF r2]
  show ?thesis
    by (simp add: process_4_rot [OF assms] process_4_rot [OF r1] process_4_rot [OF r2]
        process_4_rot [OF r3] rot_ccw_four [OF d p])
qed

theorem process_4_four_times_witness:
  "nonempty_rect [[\<lparr>red = 255, green = 0, blue = 0\<rparr>, \<lparr>red = 0, green = 255, blue = 0\<rparr>]]
   \<and> fits_int [[\<lparr>red = 255, green = 0, blue = 0\<rparr>, \<lparr>red = 0, green = 255, blue = 0\<rparr>]]
   \<and> bindR (process_4 [[\<lparr>red = 255, green = 0, blue = 0\<rparr>, \<lparr>red = 0, green = 255, blue = 0\<rparr>]])
        (\<lambda>a. bindR (process_4 a) (\<lambda>b. bindR (process_4 b) process_4))
      = Inr [[\<lparr>red = 255, green = 0, blue = 0\<rparr>, \<lparr>red = 0, green = 255, blue = 0\<rparr>]]"
proof -
  let ?img = "[[\<lparr>red = 255, green = 0, blue = 0\<rparr>, \<lparr>red = 0, green = 255, blue = (0::cint)\<rparr>]]"
  have h: "nonempty_rect ?img" "fits_int ?img"
    by (simp_all add: nonempty_rect_def fits_int_def)
  from h process_4_four_times [OF h] show ?thesis by blast
qed

text \<open>
  Claim C5. On a non-empty rectangular image and for a positive count \<open>n\<close>,
  \<open>rotate_90 img n\<close> returns what \<open>n\<close> successive applications of \<open>process_4\<close> return,
  which is what \<open>n mod 4\<close> applications return; when \<open>n mod 4 = 0\<close> it is the input image.
  The image is one the program can hold: its numbers of rows and columns fit the
  \<^verbatim>\<open>int\<close> variables that \<open>rotate_90\<close> reads them into (\<open>fits_int\<close>).
\<close>

theorem rotate_90_repeated:
  assumes "nonempty_rect img" and "fits_int img" and "0 <s n"
  shows "\<exists>out. rotate_90 img n = Inr out
     \<and> repeatR (nat (sint n)) process_4 img = Inr out
     \<and> repeatR (nat (sint n) mod 4) process_4 img = Inr out
     \<and> (sint n mod 4 = 0 \<longrightarrow> out = img)"
proof -
  from assms(1) have d: "has_dims img (length img) (length (hd img))"
    and p: "0 < length img" "0 < length (hd img)"
    by (simp_all add: nonempty_rect_iff)
  from assms(2) have b: "length img < 2 ^ 31" "length (hd img) < 2 ^ 31"
    by (simp_all add: fits_int_def)
  from assms(3) have pos: "0 < sint n" by (simp add: word_sless_alt)
  define k where "k = nat (sint n) mod 4"
  have km: "int k = sint n mod 4"
    using pos by (simp add: k_def zmod_int)
  have "c_mod n 4 = word_of_int (int k)"
    using pos by (simp add: c_mod_def signed_modulo_int_def sgn_if km)
  then have cm: "c_mod n 4 = of_nat k" by simp
  have rep: "repeatR (nat (sint n)) process_4 img = Inr ((rot_ccw ^^ k) img)"
    unfolding k_def
    by (simp only: repeatR_process_4 [OF assms(1,2)] rot_ccw_period [OF assms(1), of "nat (sint n)"])
  have repk: "repeatR k process_4 img = Inr ((rot_ccw ^^ k) img)"
    by (rule repeatR_process_4 [OF assms(1,2)])
  have "k < 4" by (simp add: k_def)
  then consider "k = 0" | "k = 1" | "k = 2" | "k = 3" by linarith
  then have rot: "rotate_90 img n = Inr ((rot_ccw ^^ k) img)"
  proof cases
    case 1
    then show ?thesis using cm by (simp add: rotate_90_def)
  next
    case 2
    then show ?thesis using cm rotate_90_turns(1) [OF d b p, of n] by simp
  next
    case 3
    then show ?thesis using cm rotate_90_turns(2) [OF d b p, of n] by (simp add: numeral_2_eq_2)
  next
    case 4
    then show ?thesis using cm rotate_90_turns(3) [OF d b p, of n] by (simp add: numeral_3_eq_3)
  qed
  have "(rot_ccw ^^ k) img = img" if "sint n mod 4 = 0"
    using that km by simp
  with rot rep repk show ?thesis
    unfolding k_def by blast
qed

theorem rotate_90_repeated_witness:
  "nonempty_rect [[\<lparr>red = 255, green = 0, blue = 0\<rparr>, \<lparr>red = 0, green = 255, blue = 0\<rparr>]]
   \<and> fits_int [[\<lparr>red = 255, green = 0, blue = 0\<rparr>, \<lparr>red = 0, green = 255, blue = 0\<rparr>]]
   \<and> (0::cint) <s 6 \<and> (0::cint) <s 4
   \<and> rotate_90 [[\<lparr>red = 255, green = 0, blue = 0\<rparr>, \<lparr>red = 0, green = 255, blue = 0\<rparr>]] 6
       = repeatR 6 process_4 [[\<lparr>red = 255, green = 0, blue = 0\<rparr>, \<lparr>red = 0, green = 255, blue = 0\<rparr>]]
   \<and> rotate_90 [[\<lparr>red = 255, green = 0, blue = 0\<rparr>, \<lparr>red = 0, green = 255, blue = 0\<rparr>]] 6
       = repeatR 2 process_4 [[\<lparr>red = 255, green = 0, blue = 0\<rparr>, \<lparr>red = 0, green = 255, blue = 0\<rparr>]]
   \<and> rotate_90 [[\<lparr>red = 255, green = 0, blue = 0\<rparr>, \<lparr>red = 0, green = 255, blue = 0\<rparr>]] 6
       = Inr [[\<lparr>red = 0, green = 255, blue = 0\<rparr>, \<lparr>red = 255, green = 0, blue = 0\<rparr>]]
   \<and> rotate_90 [[\<lparr>red = 255, green = 0, blue = 0\<rparr>, \<lparr>red = 0, green = 255, blue = 0\<rparr>]] 4
       = Inr [[\<lparr>red = 255, green = 0, blue = 0\<rparr>, \<lparr>red = 0, green = 255, blue = 0\<rparr>]]
   \<and> repeatR 4 process_4 [[\<lparr>red = 255, green = 0, blue = 0\<rparr>, \<lparr>red = 0, green = 255, blue = 0\<rparr>]]
       = Inr [[\<lparr>red = 255, green = 0, blue = 0\<rparr>, \<lparr>red = 0, green = 255, blue = 0\<rparr>]]"
proof -
  let ?img = "[[\<lparr>red = 255, green = 0, blue = 0\<rparr>, \<lparr>red = 0, green = 255, blue = (0::cint)\<rparr>]]"
  have h: "nonempty_rect ?img" "fits_int ?img"
    by (simp_all add: nonempty_rect_def fits_int_def)
  have n: "(0::cint) <s 6" "(0::cint) <s 4"
    by (simp_all add: word_sless_alt)
  from rotate_90_repeated [OF h n(1)] obtain out where o: "rotate_90 ?img 6 = Inr out"
    "repeatR 6 process_4 ?img = Inr out" "repeatR 2 process_4 ?img = Inr out"
    by auto
  from rotate_90_repeated [OF h n(2)] have f: "rotate_90 ?img 4 = Inr ?img"
    "repeatR 4 process_4 ?img = Inr ?img"
    by auto
  have t: "rotate_90 ?img 6 = Inr [[\<lparr>red = 0, green = 255, blue = 0\<rparr>, \<lparr>red = 255, green = 0, blue = 0\<rparr>]]"
    by code_simp
  from h n o f t show ?thesis by simp
qed

section \<open>The decoder: rejection and shape of the result\<close>

lemma failbit_idem: "failbit s \<Longrightarrow> s\<lparr>failbit := True\<rparr> = s"
  by (cases s) simp

lemma get_int_loop_failed:
  "failbit s \<Longrightarrow> snd (get_int_loop n r b s) = s"
  by (induction n arbitrary: r b) (simp_all add: get_def failbit_idem)

lemma get_int_loop_consumed:
  "set (consumed (snd (get_int_loop n r b s))) \<subseteq> set (consumed s) \<union> {gpos s ..< gpos s + n}"
proof (induction n arbitrary: r b s)
  case 0
  show ?case by simp
next
  case (Suc n)
  show ?case
  proof (cases "failbit s \<or> length (content s) \<le> gpos s")
    case True
    then have "snd (get_int_loop (Suc n) r b s) = s\<lparr>failbit := True\<rparr>"
      by (simp add: get_def get_int_loop_failed)
    then show ?thesis by simp
  next
    case False
    let ?s = "s\<lparr>gpos := gpos s + 1, consumed := consumed s @ [gpos s]\<rparr>"
    from False have "snd (get_int_loop (Suc n) r b s)
        = snd (get_int_loop n (r + ucast (content s ! gpos s) * b) (b * 256) ?s)"
      by (simp add: get_def)
    moreover have "set (consumed (snd (get_int_loop n (r + ucast (content s ! gpos s) * b) (b * 256) ?s)))
        \<subseteq> set (consumed ?s) \<union> {gpos ?s ..< gpos ?s + n}"
      by (rule Suc.IH)
    ultimately show ?thesis by auto
  qed
qed

lemma get_int_consumed:
  "set (consumed (snd (get_int s off n)))
     \<subseteq> set (consumed s) \<union> {nat (sint off) ..< nat (sint off) + nat (sint n)}"
proof (cases "failbit (seekg off s)")
  case True
  then have "consumed (snd (get_int s off n)) = consumed s"
    by (simp add: get_int_def get_int_loop_failed) (simp add: seekg_def split: if_splits)
  then show ?thesis by simp
next
  case False
  then have "gpos (seekg off s) = nat (sint off)" "consumed (seekg off s) = consumed s"
    by (simp_all add: seekg_def split: if_splits)
  with get_int_loop_consumed [of "nat (sint n)" 0 1 "seekg off s"] show ?thesis
    by (simp add: get_int_def)
qed

lemma read_header_consumed:
  "set (consumed (snd (read_header s))) \<subseteq> set (consumed s) \<union> header_positions"
proof -
  obtain a s1 where 1: "get_int s 2 4 = (a, s1)" by (cases "get_int s 2 4")
  obtain b s2 where 2: "get_int s1 10 4 = (b, s2)" by (cases "get_int s1 10 4")
  obtain c s3 where 3: "get_int s2 18 4 = (c, s3)" by (cases "get_int s2 18 4")
  obtain d s4 where 4: "get_int s3 22 4 = (d, s4)" by (cases "get_int s3 22 4")
  obtain e s5 where 5: "get_int s4 28 2 = (e, s5)" by (cases "get_int s4 28 2")
  have "set (consumed s1) \<subseteq> set (consumed s) \<union> {2..<6}"
    using get_int_consumed [of s 2 4] by (simp add: 1)
  moreover have "set (consumed s2) \<subseteq> set (consumed s1) \<union> {10..<14}"
    using get_int_consumed [of s1 10 4] by (simp add: 2)
  moreover have "set (consumed s3) \<subseteq> set (consumed s2) \<union> {18..<22}"
    using get_int_consumed [of s2 18 4] by (simp add: 3)
  moreover have "set (consumed s4) \<subseteq> set (consumed s3) \<union> {22..<26}"
    using get_int_consumed [of s3 22 4] by (simp add: 4)
  moreover have "set (consumed s5) \<subseteq> set (consumed s4) \<union> {28..<30}"
    using get_int_consumed [of s4 28 2] by (simp add: 5)
  moreover have "snd (read_header s) = s5"
    by (simp add: read_header_def 1 2 3 4 5)
  ultimately show ?thesis
    unfolding header_positions_def by (simp only:) fastforce
qed

lemma sint_nonneg_mod4:
  assumes "0 \<le>s x"
  shows "x + scanline_padding x = round_up4 x"
proof -
  let ?v = "sint x"
  from assms have v: "0 \<le> ?v" by (simp add: word_sle_eq)
  have m: "?v smod 4 = ?v mod 4"
    using v by (simp add: signed_modulo_int_def sgn_if)
  have x: "x = word_of_int ?v" by simp
  have r: "0 \<le> ?v mod 4" "?v mod 4 < 4" by simp_all
  have z: "c_mod x 4 = 0 \<longleftrightarrow> ?v mod 4 = 0"
  proof
    assume "c_mod x 4 = 0"
    then have "sint (word_of_int (?v mod 4) :: cint) = 0" by (simp add: c_mod_def m)
    then show "?v mod 4 = 0" using r by (simp add: sint_of_int_small)
  next
    assume "?v mod 4 = 0"
    then show "c_mod x 4 = 0" by (simp add: c_mod_def m)
  qed
  show ?thesis
  proof (cases "?v mod 4 = 0")
    case True
    then have "4 * ((?v + 3) div 4) = ?v" by presburger
    with True z show ?thesis
      by (simp add: scanline_padding_def round_up4_def)
  next
    case False
    then have e: "4 * ((?v + 3) div 4) = ?v + (4 - ?v mod 4)" by presburger
    have "x + scanline_padding x = word_of_int ?v + (4 - word_of_int (?v mod 4))"
      using False z by (simp add: scanline_padding_def c_mod_def m)
    also have "\<dots> = word_of_int (?v + (4 - ?v mod 4))" by simp
    finally show ?thesis by (simp only: round_up4_def e)
  qed
qed


text \<open>
  The size test of \<open>read_image\<close> on header fields with a row byte width
  \<open>width * (bits_per_pixel / 8)\<close> that is not negative: when the file size is not the
  start of the pixel array plus the row byte width rounded up to a multiple of 4 times
  the height, the function returns the empty image without a fault and has extracted
  bytes at the positions of the five header fields only.
\<close>

lemma read_image_size_test:
  assumes "read_header s = ((file_size, start, width, height, bits_per_pixel), s1)"
    and "0 \<le>s width * c_div bits_per_pixel 8"
    and "file_size \<noteq> start + round_up4 (width * c_div bits_per_pixel 8) * height"
  shows "read_image s = Inr ([], s1)
       \<and> set (consumed s1) \<subseteq> set (consumed s) \<union> header_positions"
proof -
  have "set (consumed s1) \<subseteq> set (consumed s) \<union> header_positions"
    using read_header_consumed [of s] by (simp add: assms(1))
  moreover have "read_image s = Inr ([], s1)"
    using assms(3) by (simp add: read_image_def assms(1) Let_def sint_nonneg_mod4 [OF assms(2)])
  ultimately show ?thesis by blast
qed

text \<open>
  Claim C4: a file whose header fields violate \<open>file_size = start + row_stride * height\<close>
  is to be rejected with the empty image, without reading pixel data and without an
  exception. The source announces its size test with the comment \<^verbatim>\<open>Return empty vector
  if this is not a valid image\<close>, and the test does not keep the promise. It takes the
  padding as \<^verbatim>\<open>4 - scanline_size % 4\<close> with the truncating remainder, which does not round
  a negative row byte width up, it divides the bits per pixel by 8 before multiplying,
  and nothing tests the sign of a field or the end of the file. Three files that violate
  the invariant pass the test, whether the row byte width is read as \<open>width * 3\<close> or as
  \<open>width * bits_per_pixel / 8\<close>:

  \<^item> \<open>negative_width_file\<close> (file size 58, start 54, width \<open>-1\<close>, height 1, 24 bits): the
    row byte width \<open>-3\<close> rounds up to 0 and 58 is not 54; the code computes a stride of 4,
    accepts the header and throws \<^verbatim>\<open>std::length_error\<close> from the vector constructor.

  \<^item> \<open>truncated_file\<close> (29 bytes; file size 30, start 54, width 1, height 1): the missing
    high byte of the bits-per-pixel field is read as \<open>-1\<close>, the field is \<open>-248\<close> and the
    row byte width \<open>-31\<close>, which rounds up to \<open>-28\<close> (30 is neither 26 nor 58); the code
    computes a stride of \<open>-24\<close>, accepts the header and returns an image of one pixel
    read past the end of the file.

  \<^item> \<open>four_bpp_file\<close> (54 bytes; file size 54, start 54, width 8, height 1, 4 bits): a
    row of 8 pixels takes 4 bytes at 4 bits per pixel (54 is neither 58 nor 78); the
    code computes \<open>8 * (4 / 8) = 0\<close>, accepts the header and returns a row of eight
    pixels read past the end of the file.
\<close>

theorem read_image_accepts_invalid:
  "fst (read_header (open_in negative_width_file)) = (58, 54, - 1, 1, 24)
   \<and> (58::cint) \<noteq> 54 + round_up4 (- 1 * 3) * 1
   \<and> (58::cint) \<noteq> 54 + round_up4 (c_div (- 1 * 24) 8) * 1
   \<and> read_image (open_in negative_width_file) = Inl LengthError
   \<and> fst (read_header (open_in truncated_file)) = (30, 54, 1, 1, - 248)
   \<and> (30::cint) \<noteq> 54 + round_up4 (1 * 3) * 1
   \<and> (30::cint) \<noteq> 54 + round_up4 (c_div (1 * - 248) 8) * 1
   \<and> map_sum id fst (read_image (open_in truncated_file))
       = Inr [[\<lparr>red = - 1, green = - 1, blue = - 1\<rparr>]]
   \<and> fst (read_header (open_in four_bpp_file)) = (54, 54, 8, 1, 4)
   \<and> (54::cint) \<noteq> 54 + round_up4 (8 * 3) * 1
   \<and> (54::cint) \<noteq> 54 + round_up4 (c_div (8 * 4) 8) * 1
   \<and> map_sum id fst (read_image (open_in four_bpp_file))
       = Inr [replicate 8 \<lparr>red = - 1, green = - 1, blue = - 1\<rparr>]"
proof -
  have "fst (read_header (open_in negative_width_file)) = (58, 54, - 1, 1, 24)"
    unfolding negative_width_file_def by code_simp
  moreover have "(58::cint) \<noteq> 54 + round_up4 (- 1 * 3) * 1"
    "(58::cint) \<noteq> 54 + round_up4 (c_div (- 1 * 24) 8) * 1"
    by (simp_all add: round_up4_def c_div_def signed_divide_int_def)
  moreover have "read_image (open_in negative_width_file) = Inl LengthError"
    unfolding negative_width_file_def by code_simp
  moreover have "fst (read_header (open_in truncated_file)) = (30, 54, 1, 1, - 248)"
    unfolding truncated_file_def by code_simp
  moreover have "(30::cint) \<noteq> 54 + round_up4 (1 * 3) * 1"
    "(30::cint) \<noteq> 54 + round_up4 (c_div (1 * - 248) 8) * 1"
    by (simp_all add: round_up4_def c_div_def signed_divide_int_def)
  moreover have "map_sum id fst (read_image (open_in truncated_file))
       = Inr [[\<lparr>red = - 1, green = - 1, blue = - 1\<rparr>]]"
    unfolding truncated_file_def by code_simp
  moreover have "fst (read_header (open_in four_bpp_file)) = (54, 54, 8, 1, 4)"
    unfolding four_bpp_file_def by code_simp
  moreover have "(54::cint) \<noteq> 54 + round_up4 (8 * 3) * 1"
    "(54::cint) \<noteq> 54 + round_up4 (c_div (8 * 4) 8) * 1"
    by (simp_all add: round_up4_def c_div_def signed_divide_int_def)
  moreover have "map_sum id fst (read_image (open_in four_bpp_file))
       = Inr [replicate 8 \<lparr>red = - 1, green = - 1, blue = - 1\<rparr>]"
    unfolding four_bpp_file_def by code_simp
  ultimately show ?thesis by blast
qed

lemma vset2_result:
  assumes "vset2 m i j x = Inr m'"
  shows "m' = upd2 m (nat (sint i)) (nat (sint j)) x"
  using assms
  by (auto simp: vset2_def vat_def vset_def bindR_def upd2_def split: if_splits sum.splits)

lemma vmod2_dims:
  assumes "vmod2 m i j f = Inr m'" and "has_dims m A B"
  shows "has_dims m' A B"
proof -
  from assms(1) obtain p where "vset2 m i j (f p) = Inr m'"
    by (auto simp: vmod2_def bindR_def split: sum.splits)
  then have "m' = upd2 m (nat (sint i)) (nat (sint j)) (f p)" by (rule vset2_result)
  with assms(2) show ?thesis by (simp add: has_dims_upd2)
qed

lemma iter_preserves:
  assumes "iter xs body s = Inr s'" and "P s"
    and "\<And>i t t'. P t \<Longrightarrow> body i t = Inr t' \<Longrightarrow> P t'"
  shows "P s'"
  using assms(1,2)
proof (induction xs arbitrary: s)
  case Nil
  then show ?case by simp
next
  case (Cons i xs)
  from Cons.prems(1) obtain t where t: "body i s = Inr t" "iter xs body t = Inr s'"
    by (auto split: sum.splits)
  from assms(3) [OF Cons.prems(2) t(1)] have "P t" .
  with t(2) show ?case by (rule Cons.IH)
qed

lemma read_pixel_dims:
  assumes "read_pixel bpp i j st = Inr st'" and "has_dims (fst st) A B"
  shows "has_dims (fst st') A B"
proof -
  obtain im pos str where st: "st = (im, pos, str)" by (cases st)
  obtain b s1 where g1: "get (seekg pos str) = (b, s1)" by (cases "get (seekg pos str)")
  obtain g s2 where g2: "get s1 = (g, s2)" by (cases "get s1")
  obtain r s3 where g3: "get s2 = (r, s3)" by (cases "get s2")
  from assms(1) obtain im1 im2 im3 where
    m: "vmod2 im i j (\<lambda>p. p\<lparr>blue := b\<rparr>) = Inr im1"
       "vmod2 im1 i j (\<lambda>p. p\<lparr>green := g\<rparr>) = Inr im2"
       "vmod2 im2 i j (\<lambda>p. p\<lparr>red := r\<rparr>) = Inr im3"
    and r: "st' = (im3, pos + c_div bpp 8, s3)"
    by (auto simp: read_pixel_def st g1 g2 g3 bindR_def split: sum.splits)
  from assms(2) have "has_dims im A B" by (simp add: st)
  then have "has_dims im3 A B"
    using m by (blast intro: vmod2_dims)
  then show ?thesis by (simp add: r)
qed

lemma read_row_dims:
  assumes "read_row bpp width padding i st = Inr st'" and "has_dims (fst st) A B"
  shows "has_dims (fst st') A B"
proof -
  from assms(1) obtain t where t: "iter (up_to width) (read_pixel bpp i) st = Inr t"
    and r: "st' = (fst t, fst (snd t) + padding, seekg_cur padding (snd (snd t)))"
    by (auto simp: read_row_def bindR_def split: sum.splits)
  have "has_dims (fst t) A B"
    using t assms(2) by (rule iter_preserves) (rule read_pixel_dims)
  then show ?thesis by (simp add: r)
qed

lemma make_image_dims:
  assumes "make_image n m = Inr im"
  shows "0 \<le>s n \<and> 0 \<le>s m \<and> has_dims im (nat (sint n)) (nat (sint m))"
  using assms
  by (auto simp: make_image_def make_vector_def bindR_def has_dims_def word_sle_eq word_sless_alt
      split: if_splits)

text \<open>
  Images are built by \<open>make_image\<close> from two \<^verbatim>\<open>int\<close> sizes, so that their numbers of rows
  and columns fit an \<^verbatim>\<open>int\<close>.
\<close>

lemma make_image_fits_int:
  assumes "make_image n m = Inr im" and "im \<noteq> []"
  shows "fits_int im"
proof -
  from make_image_dims [OF assms(1)] have d: "has_dims im (nat (sint n)) (nat (sint m))"
    by simp
  have b: "sint n < 2 ^ 31" "sint m < 2 ^ 31"
    using sint_lt [of n] sint_lt [of m] by simp_all
  from d assms(2) have "length im = nat (sint n)" "length (hd im) = nat (sint m)"
    by (simp_all add: has_dims_def)
  with b show ?thesis by (simp add: fits_int_def, arith)
qed

text \<open>
  Every image that \<open>read_image\<close> returns has numbers of rows and columns that fit an
  \<^verbatim>\<open>int\<close>: they are the height and the width read from the header.
\<close>

lemma read_image_fits_int:
  assumes "read_image s = Inr (img, s')" and "img \<noteq> []"
  shows "fits_int img"
proof -
  obtain file_size start width height bits_per_pixel s1
    where rh: "read_header s = ((file_size, start, width, height, bits_per_pixel), s1)"
    by (metis prod_cases5 surj_pair)
  let ?sl = "width * c_div bits_per_pixel 8"
  from assms obtain im0 where mk: "make_image height width = Inr im0"
    and lp: "bindR (iter (down_from (height - 1)) (read_row bits_per_pixel width (scanline_padding ?sl))
                (im0, start, s1)) (\<lambda>(img, pos, stream). Inr (img, stream)) = Inr (img, s')"
    by (auto simp: read_image_def rh Let_def bindR_def split: if_splits sum.splits)
  from lp obtain t where t: "iter (down_from (height - 1)) (read_row bits_per_pixel width (scanline_padding ?sl))
                (im0, start, s1) = Inr t" and f: "fst t = img"
    by (auto simp: bindR_def split: sum.splits)
  from make_image_dims [OF mk]
  have d0: "has_dims (fst (im0, start, s1)) (nat (sint height)) (nat (sint width))"
    by simp
  have "has_dims (fst t) (nat (sint height)) (nat (sint width))"
    using t d0 by (rule iter_preserves) (rule read_row_dims)
  then have d: "has_dims img (nat (sint height)) (nat (sint width))" by (simp add: f)
  have b: "sint height < 2 ^ 31" "sint width < 2 ^ 31"
    using sint_lt [of height] sint_lt [of width] by simp_all
  from d assms(2) have "length img = nat (sint height)" "length (hd img) = nat (sint width)"
    by (simp_all add: has_dims_def)
  with b show ?thesis by (simp add: fits_int_def, arith)
qed

text \<open>
  Claim C9, as the code has it. When \<open>read_image\<close> returns an image other than the empty
  one, the image has at least one row, its number of rows is the height field of the
  header, and every row has as many pixels as the width field says; the width is not
  negative, and can be 0.
\<close>

theorem read_image_shape:
  assumes "read_header s = ((file_size, start, width, height, bits_per_pixel), s1)"
    and "read_image s = Inr (img, s')" and "img \<noteq> []"
  shows "0 <s height \<and> 0 \<le>s width \<and> 1 \<le> length img \<and> length img = nat (sint height)
       \<and> (\<forall>row \<in> set img. length row = nat (sint width))"
proof -
  let ?sl = "width * c_div bits_per_pixel 8"
  from assms(2,3) obtain im0 where mk: "make_image height width = Inr im0"
    and lp: "bindR (iter (down_from (height - 1)) (read_row bits_per_pixel width (scanline_padding ?sl))
                (im0, start, s1)) (\<lambda>(img, pos, stream). Inr (img, stream)) = Inr (img, s')"
    by (auto simp: read_image_def assms(1) Let_def bindR_def split: if_splits sum.splits)
  from lp obtain t where t: "iter (down_from (height - 1)) (read_row bits_per_pixel width (scanline_padding ?sl))
                (im0, start, s1) = Inr t" and f: "fst t = img"
    by (auto simp: bindR_def split: sum.splits)
  from make_image_dims [OF mk] have nn: "0 \<le>s height" "0 \<le>s width"
    and d0: "has_dims (fst (im0, start, s1)) (nat (sint height)) (nat (sint width))"
    by simp_all
  have "has_dims (fst t) (nat (sint height)) (nat (sint width))"
    using t d0 by (rule iter_preserves) (rule read_row_dims)
  then have d: "has_dims img (nat (sint height)) (nat (sint width))" by (simp add: f)
  from d have "length img = nat (sint height)" by (simp add: has_dims_def)
  with assms(3) have "0 < nat (sint height)" by (cases img) auto
  then have "0 <s height" by (simp add: word_sless_alt)
  with d nn(2) assms(3) show ?thesis
    by (auto simp: has_dims_def Suc_le_eq word_sless_alt)
qed

text \<open>
  The claim as stated fails on \<open>zero_width_file\<close>: the header passes the size test and
  the image returned is not the empty vector but one row without pixels.
\<close>

theorem read_image_shape_counterexample:
  "map_sum id fst (read_image (open_in zero_width_file)) = Inr [[]]"
  unfolding zero_width_file_def by code_simp

theorem read_image_shape_witness:
  "read_header (open_in (size_mismatch_file[2 := 70]))
     = ((70, 54, 2, 2, 24), snd (read_header (open_in (size_mismatch_file[2 := 70]))))
   \<and> read_image (open_in (size_mismatch_file[2 := 70]))
       = Inr (fst (projr (read_image (open_in (size_mismatch_file[2 := 70])))),
              snd (projr (read_image (open_in (size_mismatch_file[2 := 70])))))
   \<and> fst (projr (read_image (open_in (size_mismatch_file[2 := 70])))) \<noteq> []
   \<and> (0::cint) <s 2 \<and> (0::cint) \<le>s 2
   \<and> length (fst (projr (read_image (open_in (size_mismatch_file[2 := 70]))))) = 2
   \<and> length (hd (fst (projr (read_image (open_in (size_mismatch_file[2 := 70])))))) = 2"
proof -
  let ?s = "open_in (size_mismatch_file[2 := 70])"
  have "fst (read_header ?s) = (70, 54, 2, 2, 24)"
    unfolding size_mismatch_file_def by code_simp
  then have h1: "read_header ?s = ((70, 54, 2, 2, 24), snd (read_header ?s))"
    by (simp add: prod_eq_iff)
  have r: "map_sum id fst (read_image ?s)
      = Inr [[\<lparr>red = 255, green = 0, blue = 0\<rparr>, \<lparr>red = 0, green = 255, blue = 0\<rparr>],
             [\<lparr>red = 0, green = 0, blue = 255\<rparr>, \<lparr>red = 255, green = 255, blue = 255\<rparr>]]"
    unfolding size_mismatch_file_def by code_simp
  then have h3: "fst (projr (read_image ?s)) \<noteq> []"
    by (cases "read_image ?s") auto
  from r have h2: "read_image ?s = Inr (fst (projr (read_image ?s)), snd (projr (read_image ?s)))"
    by (cases "read_image ?s") auto
  from h3 have "hd (fst (projr (read_image ?s))) \<in> set (fst (projr (read_image ?s)))"
    by simp
  with read_image_shape [OF h1 h2 h3] h1 h2 h3 show ?thesis by simp
qed

section \<open>The encoder and the round trip\<close>

lemma up_to_consts: "up_to 4 = [0, 1, 2, 3]" "up_to 2 = [0, 1]" "up_to 1 = [0]"
  by (simp_all add: up_to_def upt_rec)

lemma replicate_14: "replicate 14 (x::byte) = [x,x,x,x,x,x,x,x,x,x,x,x,x,x]"
  by (simp add: numeral_eq_Suc)

lemma replicate_40: "replicate 40 (x::byte) = [x,x,x,x,x,x,x,x,x,x,x,x,x,x,x,x,x,x,x,x,x,x,x,x,x,x,x,x,x,x,x,x,x,x,x,x,x,x,x,x]"
  by (simp add: numeral_eq_Suc)

lemma bmp_header_value:
  "bmp_header_of a = Inr ([66, 77] @ le4 (54 + a) @ [0, 0, 0, 0] @ le4 54)"
  by (simp add: bmp_header_of_def set_bytes_def up_to_consts vset_def replicate_14 word_sle_eq
      BMP_HEADER_SIZE_def DIB_HEADER_SIZE_def le4_def)

lemma dib_header_value:
  "dib_header_of w h a = Inr (le4 40 @ le4 w @ le4 h @ [1, 0, 24, 0] @ le4 0 @ le4 a
      @ le4 2835 @ le4 2835 @ le4 0 @ le4 0)"
  by (simp add: dib_header_of_def set_bytes_def up_to_consts vset_def replicate_40 word_sle_eq
      DIB_HEADER_SIZE_def le4_def)

lemma ucast_sdrop: "k \<le> 24 \<Longrightarrow> (ucast (signed_drop_bit k (v::cint)) :: byte) = ucast (drop_bit k v)"
  by (rule bit_eqI) (auto simp: bit_simps)

lemma uint_byte_of:
  assumes "k \<le> 24"
  shows "uint (ucast (signed_drop_bit k (v::cint)) :: byte) = uint v div 2 ^ k mod 256"
proof -
  have 1: "uint (ucast w :: byte) = uint w mod 256" for w :: cint
    by (simp add: unsigned_ucast_eq take_bit_eq_mod)
  have "uint v mod 4294967296 = uint v" using uint_lt2p [of v] by simp
  then have 2: "uint (drop_bit k v) = uint v div 2 ^ k"
    by (simp only: unsigned_drop_bit_eq) (simp add: take_bit_eq_mod drop_bit_eq_div)
  show ?thesis
    by (simp only: ucast_sdrop [OF assms] 1 2)
qed


lemma bytes_sum:
  assumes "0 \<le> (x::int)" and "x < 4294967296"
  shows "x mod 256 + x div 256 mod 256 * 256 + x div 65536 mod 256 * 65536
         + x div 16777216 mod 256 * 16777216 = x"
proof -
  define q1 where "q1 = x div 256"
  define q2 where "q2 = q1 div 256"
  define q3 where "q3 = q2 div 256"
  have a: "x = x mod 256 + 256 * q1" by (simp add: q1_def)
  have b: "q1 = q1 mod 256 + 256 * q2" by (simp add: q2_def)
  have c: "q2 = q2 mod 256 + 256 * q3" by (simp add: q3_def)
  have f: "q2 = x div 65536" "q3 = x div 16777216"
    by (simp_all add: q1_def q2_def q3_def div_mult2_eq [symmetric])
  have "0 \<le> q3" "q3 < 256" using assms by (simp_all add: f)
  then have g: "q3 mod 256 = q3" by simp
  have "x mod 256 + q1 mod 256 * 256 + q2 mod 256 * 65536 + q3 mod 256 * 16777216 = x"
    using a b c unfolding g by linarith
  then show ?thesis by (simp only: f q1_def)
qed


lemma le4_decode:
  "word_of_int (uint (le4 v ! 0) + uint (le4 v ! 1) * 256 + uint (le4 v ! 2) * 65536
      + uint (le4 v ! 3) * 16777216) = v"
proof -
  have "uint v < 4294967296" using uint_lt2p [of v] by simp
  then have s: "uint v mod 256 + uint v div 256 mod 256 * 256 + uint v div 65536 mod 256 * 65536
         + uint v div 16777216 mod 256 * 16777216 = uint v"
    by (intro bytes_sum) simp_all
  have b: "uint (le4 v ! 0) = uint v mod 256" "uint (le4 v ! 1) = uint v div 256 mod 256"
    "uint (le4 v ! 2) = uint v div 65536 mod 256" "uint (le4 v ! 3) = uint v div 16777216 mod 256"
    using uint_byte_of [of 0 v] uint_byte_of [of 8 v] uint_byte_of [of 16 v] uint_byte_of [of 24 v]
    by (simp_all add: le4_def)
  show ?thesis by (simp only: b s) simp
qed


lemma uint_chan: "uint (chan_byte v) = sint v mod 256"
  by (simp add: chan_byte_def uint_word_of_int)

lemma ucast_chan: "(ucast (v::cint) :: byte) = chan_byte v"
proof -
  have "take_bit 8 (uint v) = take_bit 8 (sint v)"
    by (simp add: sint_uint take_bit_signed_take_bit)
  also have "\<dots> = take_bit 8 (sint v mod 256)"
    by (simp add: take_bit_eq_mod)
  finally have "(word_of_int (uint v) :: byte) = word_of_int (sint v mod 256)"
    by (simp only: word_of_int_eq_iff) simp
  then show ?thesis by (simp add: chan_byte_def)
qed

lemma chan_roundtrip:
  assumes "in_byte_range v"
  shows "(ucast (chan_byte v) :: cint) = v"
proof -
  from assms have r: "0 \<le> sint v" "sint v < 256"
    by (simp_all add: in_byte_range_def word_sle_eq)
  then have "uint (chan_byte v) = sint v" by (simp add: uint_chan)
  then have "(ucast (chan_byte v) :: cint) = word_of_int (sint v)"
    by (metis of_int_uint)
  then show ?thesis by simp
qed


lemma get_int_loop_ok:
  assumes "\<not> failbit s" and "gpos s + n \<le> length (content s)"
  shows "\<not> failbit (snd (get_int_loop n r b s)) \<and> content (snd (get_int_loop n r b s)) = content s"
  using assms
proof (induction n arbitrary: r b s)
  case 0
  then show ?case by simp
next
  case (Suc n)
  let ?s = "s\<lparr>gpos := gpos s + 1, consumed := consumed s @ [gpos s]\<rparr>"
  from Suc.prems have g: "get s = (ucast (content s ! gpos s), ?s)"
    by (simp add: get_def)
  have "\<not> failbit (snd (get_int_loop n (r + ucast (content s ! gpos s) * b) (b * 256) ?s))
      \<and> content (snd (get_int_loop n (r + ucast (content s ! gpos s) * b) (b * 256) ?s)) = content ?s"
    using Suc.prems by (intro Suc.IH) simp_all
  then show ?case by (simp add: g)
qed

lemma get_int_ok:
  assumes "\<not> failbit s" and "0 \<le>s off" and "nat (sint off) + nat (sint n) \<le> length (content s)"
  shows "\<not> failbit (snd (get_int s off n))" and "content (snd (get_int s off n)) = content s"
    and "fst (get_int s off n) = word_of_int (le_value byte_or_eof (content s) (nat (sint off)) (nat (sint n)))"
proof -
  let ?s = "seekg off s"
  from assms(1,2) have s: "\<not> failbit ?s" "gpos ?s = nat (sint off)" "content ?s = content s"
    by (simp_all add: seekg_def word_sless_alt word_sle_eq)
  from get_int_loop_ok [of ?s "nat (sint n)" 0 1] s assms(3)
  show "\<not> failbit (snd (get_int s off n))" and "content (snd (get_int s off n)) = content s"
    by (simp_all add: get_int_def)
  show "fst (get_int s off n) = word_of_int (le_value byte_or_eof (content s) (nat (sint off)) (nat (sint n)))"
    using assms(1,2) by (rule get_int_value)
qed

lemma le_value_4:
  assumes "off + 4 \<le> length d"
  shows "le_value byte_or_eof d off 4
       = uint (d ! off) + uint (d ! (off + 1)) * 256 + uint (d ! (off + 2)) * 65536
         + uint (d ! (off + 3)) * 16777216"
  using assms by (simp add: le_value_def byte_or_eof_def upt_rec numeral_3_eq_3)

lemma le_value_2:
  assumes "off + 2 \<le> length d"
  shows "le_value byte_or_eof d off 2 = uint (d ! off) + uint (d ! (off + 1)) * 256"
  using assms by (simp add: le_value_def byte_or_eof_def upt_rec)

lemma le_value_le4:
  assumes "off + 4 \<le> length d" and "d ! off = le4 v ! 0" and "d ! (off + 1) = le4 v ! 1"
    and "d ! (off + 2) = le4 v ! 2" and "d ! (off + 3) = le4 v ! 3"
  shows "word_of_int (le_value byte_or_eof d off 4) = v"
  by (simp only: le_value_4 [OF assms(1)] assms(2-5) le4_decode)

lemma length_le4 [simp]: "length (le4 v) = 4"
  by (simp add: le4_def)

lemma read_header_written:
  fixes rest body :: "byte list" and f w h :: cint
  defines "d \<equiv> [66, 77] @ le4 f @ [0, 0, 0, 0] @ le4 54 @ le4 40 @ le4 w @ le4 h @ [1, 0, 24, 0]
              @ rest @ body"
  shows "fst (read_header (open_in d)) = (f, 54, w, h, 24)"
    and "\<not> failbit (snd (read_header (open_in d)))"
    and "content (snd (read_header (open_in d))) = d"
proof -
  have len: "30 \<le> length d" by (simp add: d_def)
  let ?s0 = "open_in d"
  have s0: "\<not> failbit ?s0" "content ?s0 = d" by (simp_all add: open_in_def)
  obtain a s1 where 1: "get_int ?s0 2 4 = (a, s1)" by (cases "get_int ?s0 2 4")
  obtain b s2 where 2: "get_int s1 10 4 = (b, s2)" by (cases "get_int s1 10 4")
  obtain c s3 where 3: "get_int s2 18 4 = (c, s3)" by (cases "get_int s2 18 4")
  obtain e s4 where 4: "get_int s3 22 4 = (e, s4)" by (cases "get_int s3 22 4")
  obtain g s5 where 5: "get_int s4 28 2 = (g, s5)" by (cases "get_int s4 28 2")
  have k1: "\<not> failbit s1" "content s1 = d" "a = word_of_int (le_value byte_or_eof d 2 4)"
    using get_int_ok [of ?s0 2 4] s0 len by (simp_all add: 1 word_sle_eq)
  have k2: "\<not> failbit s2" "content s2 = d" "b = word_of_int (le_value byte_or_eof d 10 4)"
    using get_int_ok [of s1 10 4] k1 len by (simp_all add: 2 word_sle_eq)
  have k3: "\<not> failbit s3" "content s3 = d" "c = word_of_int (le_value byte_or_eof d 18 4)"
    using get_int_ok [of s2 18 4] k2 len by (simp_all add: 3 word_sle_eq)
  have k4: "\<not> failbit s4" "content s4 = d" "e = word_of_int (le_value byte_or_eof d 22 4)"
    using get_int_ok [of s3 22 4] k3 len by (simp_all add: 4 word_sle_eq)
  have k5: "\<not> failbit s5" "content s5 = d" "g = word_of_int (le_value byte_or_eof d 28 2)"
    using get_int_ok [of s4 28 2] k4 len by (simp_all add: 5 word_sle_eq)
  have va: "a = f"
    unfolding k1(3) using len by (intro le_value_le4) (simp_all add: d_def nth_append)
  have vb: "b = 54"
    unfolding k2(3) using len by (intro le_value_le4) (simp_all add: d_def nth_append)
  have vc: "c = w"
    unfolding k3(3) using len by (intro le_value_le4) (simp_all add: d_def nth_append)
  have ve: "e = h"
    unfolding k4(3) using len by (intro le_value_le4) (simp_all add: d_def nth_append)
  have vg: "g = 24"
    unfolding k5(3) using len by (simp add: le_value_2) (simp add: d_def nth_append)
  have r: "read_header ?s0 = ((a, b, c, e, g), s5)"
    by (simp add: read_header_def 1 2 3 4 5)
  show "fst (read_header (open_in d)) = (f, 54, w, h, 24)"
    by (simp add: r va vb vc ve vg)
  show "\<not> failbit (snd (read_header (open_in d)))" by (simp add: r k5)
  show "content (snd (read_header (open_in d))) = d" by (simp add: r k5)
qed

lemma pad_of_bound: "pad_of C < 4"
  by (simp add: pad_of_def)

lemma c_mod_nonneg:
  assumes "0 \<le> v" and "v < 2 ^ 31"
  shows "c_mod (word_of_int v) 4 = word_of_int (v mod 4)"
  using assms by (simp add: c_mod_def sint_of_int_small signed_modulo_int_def sgn_if)

lemma int_pad_of: "int (pad_of C) = (4 - int (3 * C) mod 4) mod 4"
proof -
  have "3 * C mod 4 \<le> 4" by simp
  then have "int (4 - 3 * C mod 4) = 4 - int (3 * C mod 4)" by (simp only: of_nat_diff)
  then show ?thesis
    unfolding pad_of_def by (simp only: zmod_int) simp
qed

lemma small_word_zero:
  assumes "0 \<le> m" and "m < 4"
  shows "(word_of_int m :: cint) = 0 \<longleftrightarrow> m = 0"
proof
  assume "(word_of_int m :: cint) = 0"
  then have "sint (word_of_int m :: cint) = 0" by simp
  moreover have "sint (word_of_int m :: cint) = m"
    using assms by (intro sint_of_int_small) simp_all
  ultimately show "m = 0" by simp
qed simp

lemma write_padding:
  assumes "3 * C < 2 ^ 31"
  shows "c_mod (4 - c_mod (of_nat C * 3) 4) 4 = (of_nat (pad_of C) :: cint)"
proof -
  let ?m = "int (3 * C) mod 4"
  have m: "0 \<le> ?m" "?m < 4" by simp_all
  have w: "(of_nat C * 3 :: cint) = word_of_int (int (3 * C))" by simp
  have 1: "c_mod (of_nat C * 3) 4 = word_of_int ?m"
    unfolding w using assms by (intro c_mod_nonneg) simp_all
  have 2: "(4 - word_of_int ?m :: cint) = word_of_int (4 - ?m)" by simp
  have 3: "c_mod (word_of_int (4 - ?m)) 4 = word_of_int ((4 - ?m) mod 4)"
    using m by (intro c_mod_nonneg) simp_all
  show ?thesis by (simp only: 1 2 3 int_pad_of [symmetric]) simp
qed

lemma read_padding:
  assumes "3 * C < 2 ^ 31"
  shows "scanline_padding (of_nat C * c_div 24 8) = (of_nat (pad_of C) :: cint)"
proof -
  let ?m = "int (3 * C) mod 4"
  have m: "0 \<le> ?m" "?m < 4" by simp_all
  have d: "c_div 24 8 = 3" by (simp add: c_div_def signed_divide_int_def)
  have w: "(of_nat C * 3 :: cint) = word_of_int (int (3 * C))" by simp
  have 1: "c_mod (of_nat C * 3) 4 = word_of_int ?m"
    unfolding w using assms by (intro c_mod_nonneg) simp_all
  note z = small_word_zero [OF m]
  show ?thesis
  proof (cases "?m = 0")
    case True
    then have "int (pad_of C) = 0" by (simp only: int_pad_of) simp
    then show ?thesis
      using True by (simp add: scanline_padding_def d 1)
  next
    case False
    with m have "0 \<le> 4 - ?m" "4 - ?m < 4" by linarith+
    then have "(4 - ?m) mod 4 = 4 - ?m" by (rule mod_pos_pos_trivial)
    then have p: "int (pad_of C) = 4 - ?m" by (simp only: int_pad_of)
    have "scanline_padding (of_nat C * c_div 24 8) = 4 - word_of_int ?m"
      using False z by (simp add: scanline_padding_def d 1)
    also have "\<dots> = word_of_int (4 - ?m)" by simp
    also have "\<dots> = of_nat (pad_of C)" by (simp only: p [symmetric]) simp
    finally show ?thesis .
  qed
qed


lemma c_mod_4_value:
  "\<exists>r. c_mod x 4 = word_of_int r \<and> - 3 \<le> r \<and> r \<le> 3 \<and> r mod 4 = sint x mod 4"
proof -
  let ?v = "sint x"
  let ?r = "?v smod 4"
  have "?r = ?v mod 4 - 4 * of_bool (sgn ?v \<noteq> sgn 4 \<and> \<not> 4 dvd ?v)"
    by (rule signed_modulo_int_eq_modulo_int)
  moreover have "0 \<le> ?v mod 4" "?v mod 4 < 4" by simp_all
  ultimately have "- 3 \<le> ?r \<and> ?r \<le> 3 \<and> ?r mod 4 = ?v mod 4"
    by (cases "sgn ?v \<noteq> sgn 4 \<and> \<not> 4 dvd ?v") (auto simp: mod_diff_eq [symmetric] dvd_eq_mod_eq_0)
  then show ?thesis by (auto simp: c_mod_def)
qed

lemma write_padding_any:
  "c_mod (4 - c_mod (of_nat C * 3) 4) 4 = (of_nat (pad_of C) :: cint)"
proof -
  let ?w = "of_nat C * 3 :: cint"
  obtain r where r: "c_mod ?w 4 = word_of_int r" "- 3 \<le> r" "r \<le> 3" "r mod 4 = sint ?w mod 4"
    using c_mod_4_value [of ?w] by blast
  have "take_bit 2 (sint ?w) = take_bit 2 (int (3 * C))"
  proof -
    have "?w = word_of_int (int (3 * C))" by simp
    then have "sint ?w = signed_take_bit 31 (int (3 * C))" by (simp only: sint_sbintrunc') simp
    then show ?thesis by (simp add: take_bit_signed_take_bit)
  qed
  then have m: "sint ?w mod 4 = int (3 * C) mod 4" by (simp add: take_bit_eq_mod)
  have s: "sint (word_of_int (4 - r) :: cint) = 4 - r"
    using r(2,3) by (intro sint_of_int_small) simp_all
  have p: "0 \<le> 4 - r" using r(3) by simp
  have "c_mod (4 - word_of_int r) 4 = (word_of_int ((4 - r) mod 4) :: cint)"
  proof -
    have "(4 - word_of_int r :: cint) = word_of_int (4 - r)" by simp
    moreover have "(4 - r) smod 4 = (4 - r) mod 4"
      using p r(3) by (simp add: signed_modulo_int_def sgn_if)
    ultimately show ?thesis by (simp only: c_mod_def s) simp
  qed
  moreover have "(4 - r) mod 4 = (4 - int (3 * C) mod 4) mod 4"
    using r(4) m by (metis mod_diff_right_eq)
  ultimately show ?thesis
    by (simp only: r(1) int_pad_of [symmetric]) simp
qed

lemma three_updates: "length p = 3 \<Longrightarrow> p[0 := a, Suc 0 := b, 2 := c] = [a, b, c]"
  by (cases p; cases "tl p"; cases "tl (tl p)") (auto simp: numeral_2_eq_2)

lemma write_pixel_ok:
  fixes img :: Image
  assumes "has_dims img R C" and "h < R" and "w < C" and "R < 2 ^ 31" and "C < 2 ^ 31"
    and "length pixel = 3"
  shows "write_pixel img (of_nat h) (of_nat w) (pixel, stream)
       = Inr (pixel_bytes (img ! h ! w), stream @ pixel_bytes (img ! h ! w))"
proof -
  have rd: "vat2 img (of_nat h) (of_nat w) = Inr (img ! h ! w)"
    using assms(1-5) by (intro vat2_nat) (auto simp: has_dims_def)
  show ?thesis
    by (simp add: write_pixel_def rd Let_def three_updates [OF assms(6)] pixel_bytes_def ucast_chan)
qed

lemma length_pixel_bytes [simp]: "length (pixel_bytes p) = 3"
  by (simp add: pixel_bytes_def)

lemma write_row_ok:
  fixes img :: Image
  assumes img: "has_dims img R C" and h: "h < R" and R: "R < 2 ^ 31" and C: "C < 2 ^ 31"
    and px: "length px = 3" and pad: "pad < 4"
  shows "\<exists>px'. write_row img (of_nat C) (of_nat pad) (of_nat h) (px, st)
           = Inr (px', st @ row_bytes pad (img ! h)) \<and> length px' = 3"
proof -
  let ?P = "\<lambda>k (t :: byte list \<times> byte list).
      length (fst t) = 3 \<and> snd t = st @ concat (map pixel_bytes (take k (img ! h)))"
  have len: "length (img ! h) = C" using img h by (rule has_dims_nth)
  have "\<exists>t. iter [0..<C] (\<lambda>k. write_pixel img (of_nat h) (of_nat k)) (px, st) = Inr t \<and> ?P C t"
  proof (rule iter_upt_inv)
    show "?P 0 (px, st)" using px by simp
  next
    fix k and t :: "byte list \<times> byte list"
    assume k: "k < C" and t: "?P k t"
    obtain p s where ps: "t = (p, s)" by (cases t)
    with t have p: "length p = 3" and s: "s = st @ concat (map pixel_bytes (take k (img ! h)))"
      by simp_all
    have "write_pixel img (of_nat h) (of_nat k) (p, s)
        = Inr (pixel_bytes (img ! h ! k), s @ pixel_bytes (img ! h ! k))"
      using img h k R C p by (rule write_pixel_ok)
    moreover have "take (Suc k) (img ! h) = take k (img ! h) @ [img ! h ! k]"
      using k len by (simp add: take_Suc_conv_app_nth)
    ultimately show "\<exists>t'. write_pixel img (of_nat h) (of_nat k) t = Inr t' \<and> ?P (Suc k) t'"
      by (simp add: ps s)
  qed
  then obtain t where t: "iter [0..<C] (\<lambda>k. write_pixel img (of_nat h) (of_nat k)) (px, st) = Inr t"
    "length (fst t) = 3" "snd t = st @ concat (map pixel_bytes (img ! h))"
    using len by auto
  have it: "iter (up_to (of_nat C)) (write_pixel img (of_nat h)) (px, st) = Inr t"
    using t(1) by (simp only: up_to_nat [OF C] iter_map_fun)
  have tk: "take (nat (sint (of_nat pad :: cint))) [0, 0, 0 :: byte] = replicate pad 0"
  proof -
    from pad have "pad < 2 ^ 31" by simp
    then have "nat (sint (of_nat pad :: cint)) = pad" by (simp add: sint_of_nat_small)
    moreover from pad consider "pad = 0" | "pad = 1" | "pad = 2" | "pad = 3" by linarith
    then have "take pad [0, 0, 0 :: byte] = replicate pad 0"
      by cases (simp_all add: numeral_2_eq_2 numeral_3_eq_3)
    ultimately show ?thesis by simp
  qed
  obtain p s where ps: "t = (p, s)" by (cases t)
  show ?thesis
    using t(2,3) by (simp add: write_row_def it ps tk row_bytes_def)
qed

lemma down_from_nat:
  assumes "0 < R" and "R < 2 ^ 31"
  shows "down_from (of_nat R - 1) = map of_nat (rev [0..<R])"
proof -
  have "(of_nat R - 1 :: cint) = of_nat (R - 1)" using assms(1) by (simp add: of_nat_diff)
  moreover have "sint (of_nat (R - 1) :: cint) = int (R - 1)"
    using assms(2) by (intro sint_of_nat_small) simp
  ultimately have "nat (sint (of_nat R - 1 :: cint) + 1) = R" using assms(1) by simp
  then show ?thesis by (simp add: down_from_def)
qed

lemma write_rows_ok:
  fixes img :: Image
  assumes img: "has_dims img R C" and R: "R < 2 ^ 31" and C: "C < 2 ^ 31" and pad: "pad < 4"
  shows "n \<le> R \<Longrightarrow> length px = 3
     \<Longrightarrow> \<exists>px'. iter (map of_nat (rev [0..<n])) (write_row img (of_nat C) (of_nat pad)) (px, st)
           = Inr (px', st @ concat (map (row_bytes pad) (rev (take n img)))) \<and> length px' = 3"
proof (induction n arbitrary: px st)
  case 0
  then show ?case by simp
next
  case (Suc n)
  then have n: "n < R" "n \<le> R" by simp_all
  from write_row_ok [OF img n(1) R C Suc.prems(2) pad, of st]
  obtain px1 where 1: "write_row img (of_nat C) (of_nat pad) (of_nat n) (px, st)
           = Inr (px1, st @ row_bytes pad (img ! n))" "length px1 = 3"
    by blast
  from Suc.IH [OF n(2) 1(2), of "st @ row_bytes pad (img ! n)"]
  obtain px2 where 2: "iter (map of_nat (rev [0..<n])) (write_row img (of_nat C) (of_nat pad))
        (px1, st @ row_bytes pad (img ! n))
      = Inr (px2, (st @ row_bytes pad (img ! n)) @ concat (map (row_bytes pad) (rev (take n img))))"
    "length px2 = 3"
    by blast
  have "take (Suc n) img = take n img @ [img ! n]"
    using n(1) img by (simp add: take_Suc_conv_app_nth has_dims_def)
  then show ?case
    using 1 2 by simp
qed


lemma nth_concat_uniform:
  assumes "\<forall>xs \<in> set xss. length xs = n" and "t < length xss" and "x < n"
  shows "concat xss ! (t * n + x) = xss ! t ! x"
  using assms
proof (induction xss arbitrary: t)
  case Nil
  then show ?case by simp
next
  case (Cons xs xss)
  show ?case
  proof (cases t)
    case 0
    with Cons.prems show ?thesis by (simp add: nth_append)
  next
    case (Suc t')
    with Cons.prems have "concat xss ! (t' * n + x) = xss ! t' ! x"
      by (intro Cons.IH) simp_all
    with Suc Cons.prems show ?thesis by (simp add: nth_append)
  qed
qed

lemma length_concat_uniform:
  "\<forall>xs \<in> set xss. length xs = n \<Longrightarrow> length (concat xss) = length xss * n"
  by (induction xss) simp_all

lemma length_concat_pixels: "length (concat (map pixel_bytes row)) = 3 * length row"
  by (induction row) simp_all

lemma length_row_bytes: "length (row_bytes pad row) = 3 * length row + pad"
  by (simp add: row_bytes_def length_concat_pixels)

lemma row_bytes_nth:
  assumes "w < length row" and "k < 3"
  shows "row_bytes pad row ! (3 * w + k) = pixel_bytes (row ! w) ! k"
proof -
  have "concat (map pixel_bytes row) ! (w * 3 + k) = map pixel_bytes row ! w ! k"
    using assms by (intro nth_concat_uniform) simp_all
  moreover have "3 * w + k < length (concat (map pixel_bytes row))"
    using assms by (simp add: length_concat_pixels)
  ultimately show ?thesis
    using assms(1) by (simp add: row_bytes_def nth_append mult.commute)
qed

lemma length_pixel_array:
  assumes "has_dims img R C" and "0 < R"
  shows "length (pixel_array img) = R * stride_of C"
proof -
  have "\<forall>xs \<in> set (map (row_bytes (pad_of C)) (rev img)). length xs = stride_of C"
    using assms(1) by (auto simp: has_dims_def length_row_bytes stride_of_def)
  then have "length (concat (map (row_bytes (pad_of C)) (rev img))) = length (map (row_bytes (pad_of C)) (rev img)) * stride_of C"
    by (rule length_concat_uniform)
  then show ?thesis
    using assms by (simp add: pixel_array_def hd_dims [OF assms]) (simp add: has_dims_def)
qed

lemma pixel_array_nth:
  assumes img: "has_dims img R C" and h: "h < R" and w: "w < C" and k: "k < 3"
  shows "pixel_array img ! ((R - 1 - h) * stride_of C + 3 * w + k) = pixel_bytes (img ! h ! w) ! k"
proof -
  let ?rows = "map (row_bytes (pad_of C)) (rev img)"
  have R: "length img = R" using img by (simp add: has_dims_def)
  have len: "length (img ! h) = C" using img h by (rule has_dims_nth)
  have u: "\<forall>xs \<in> set ?rows. length xs = stride_of C"
    using img by (auto simp: has_dims_def length_row_bytes stride_of_def)
  have t: "R - 1 - h < length ?rows" using h R by simp
  have x: "3 * w + k < stride_of C" using w k by (simp add: stride_of_def)
  have "concat ?rows ! ((R - 1 - h) * stride_of C + (3 * w + k)) = ?rows ! (R - 1 - h) ! (3 * w + k)"
    using u t x by (rule nth_concat_uniform)
  moreover have "rev img ! (R - 1 - h) = img ! h"
    using h R by (simp add: rev_nth)
  ultimately have "concat ?rows ! ((R - 1 - h) * stride_of C + (3 * w + k))
      = row_bytes (pad_of C) (img ! h) ! (3 * w + k)"
    using h R by simp
  also have "\<dots> = pixel_bytes (img ! h ! w) ! k"
    using w k len by (intro row_bytes_nth) simp_all
  finally show ?thesis
    using h by (simp add: pixel_array_def hd_dims [OF img] add.assoc)
qed

lemma encodable_bounds:
  assumes "nonempty_rect img" and "encoded_size img < 2 ^ 31"
  shows "3 * length (hd img) < 2 ^ 31" and "length (hd img) < 2 ^ 31" and "length img < 2 ^ 31"
    and "54 + stride_of (length (hd img)) * length img < 2 ^ 31"
proof -
  let ?C = "length (hd img)" and ?R = "length img"
  from assms(1) have p: "0 < ?R" "0 < ?C" by (simp_all add: nonempty_rect_iff)
  from assms(2) show "54 + stride_of ?C * ?R < 2 ^ 31" by (simp add: encoded_size_def)
  from assms(2) have e: "54 + stride_of ?C * ?R < 2147483648" by (simp add: encoded_size_def)
  have s: "3 * ?C \<le> stride_of ?C" by (simp add: stride_of_def)
  from p s have one: "1 \<le> ?R" "1 \<le> stride_of ?C" by linarith+
  have "stride_of ?C * 1 \<le> stride_of ?C * ?R" using one(1) by (rule mult_le_mono2)
  then have "stride_of ?C \<le> stride_of ?C * ?R" by simp
  with e s have "3 * ?C < 2147483648" by linarith
  then show "3 * ?C < 2 ^ 31" by simp
  then show "?C < 2 ^ 31" by simp
  have "1 * ?R \<le> stride_of ?C * ?R" using one(2) by (rule mult_le_mono1)
  then have "?R \<le> stride_of ?C * ?R" by simp
  with e have "?R < 2147483648" by linarith
  then show "?R < 2 ^ 31" by simp
qed

lemma headers_value:
  "bindR (bmp_header_of a) (\<lambda>bmp_header. bindR (dib_header_of w h a) (\<lambda>dib_header.
      F (take 14 bmp_header @ take 40 dib_header))) = F (file_header w h a)"
  by (simp add: bmp_header_value dib_header_value file_header_def)

lemma write_image_ok:
  assumes "nonempty_rect img" and "fits_int img"
  shows "write_image True img
       = Inr (True, file_header (of_nat (length (hd img))) (of_nat (length img))
                      (of_nat (stride_of (length (hd img)) * length img)) @ pixel_array img)"
proof -
  let ?C = "length (hd img)" and ?R = "length img"
  let ?hdr = "file_header (of_nat ?C) (of_nat ?R) (of_nat (stride_of ?C * ?R))"
  from assms(1) have d: "has_dims img ?R ?C" and p: "0 < ?R" "0 < ?C"
    by (simp_all add: nonempty_rect_iff)
  from assms(2) have b: "length (hd img) < 2 ^ 31" "length img < 2 ^ 31"
    by (simp_all add: fits_int_def)
  have ne: "img \<noteq> []" using p by simp
  have v0: "vat img 0 = Inr (hd img)"
    using ne by (simp add: vat_def hd_conv_nth)
  have pw: "c_mod (4 - c_mod (of_nat ?C * 3) 4) 4 = (of_nat (pad_of ?C) :: cint)"
    by (rule write_padding_any)
  have ab: "(of_nat ?C * 3 + of_nat (pad_of ?C)) * of_nat ?R = (of_nat (stride_of ?C * ?R) :: cint)"
    by (simp add: stride_of_def algebra_simps)
  from write_rows_ok [OF d b(2) b(1) pad_of_bound, where n = ?R and px = "[0, 0, 0]" and st = ?hdr]
  obtain px' where "iter (map of_nat (rev [0..<?R])) (write_row img (of_nat ?C) (of_nat (pad_of ?C)))
      ([0, 0, 0], ?hdr)
    = Inr (px', ?hdr @ concat (map (row_bytes (pad_of ?C)) (rev (take ?R img))))"
    by auto
  then have lp: "iter (down_from (of_nat ?R - 1)) (write_row img (of_nat ?C) (of_nat (pad_of ?C)))
      ([0, 0, 0], ?hdr) = Inr (px', ?hdr @ pixel_array img)"
    by (simp add: down_from_nat [OF p(1) b(2)] pixel_array_def)
  let ?G = "\<lambda>s. bindR (iter (down_from (of_nat ?R - 1)) (write_row img (of_nat ?C) (of_nat (pad_of ?C)))
                ([0, 0, 0], s)) (\<lambda>(pixel, stream). Inr (True, stream))"
  have "write_image True img
      = bindR (bmp_header_of (of_nat (stride_of ?C * ?R))) (\<lambda>bmp_header.
        bindR (dib_header_of (of_nat ?C) (of_nat ?R) (of_nat (stride_of ?C * ?R))) (\<lambda>dib_header.
          ?G (take 14 bmp_header @ take 40 dib_header)))"
    by (simp only: write_image_def v0 bindR_Inr Let_def pw ab simp_thms if_False)
  also have "\<dots> = ?G ?hdr" by (rule headers_value)
  also have "\<dots> = Inr (True, ?hdr @ pixel_array img)"
    by (simp only: lp bindR_Inr prod.case)
  finally show ?thesis .
qed

lemma length_file_header [simp]: "length (file_header w h a) = 54"
  by (simp add: file_header_def)

text \<open>
  Claim C10. For a non-empty rectangular image whose numbers of rows and columns fit
  the \<^verbatim>\<open>int\<close> variables of \<open>write_image\<close>, the function succeeds, writes 54 bytes of
  headers and the rows from the last to the first, and the three bytes of the pixel at
  \<open>(h, w)\<close> are its blue, green and red channel values modulo 256, whatever the values
  are.
\<close>

theorem write_image_channel_bytes:
  assumes "nonempty_rect img" and "fits_int img"
  shows "\<exists>bytes. write_image True img = Inr (True, bytes) \<and> length bytes = encoded_size img
     \<and> (\<forall>h < length img. \<forall>w < length (hd img).
          uint (bytes ! (54 + (length img - 1 - h) * stride_of (length (hd img)) + 3 * w))
            = sint (blue (img ! h ! w)) mod 256
        \<and> uint (bytes ! (54 + (length img - 1 - h) * stride_of (length (hd img)) + 3 * w + 1))
            = sint (green (img ! h ! w)) mod 256
        \<and> uint (bytes ! (54 + (length img - 1 - h) * stride_of (length (hd img)) + 3 * w + 2))
            = sint (red (img ! h ! w)) mod 256)"
proof -
  let ?C = "length (hd img)" and ?R = "length img"
  let ?hdr = "file_header (of_nat ?C) (of_nat ?R) (of_nat (stride_of ?C * ?R))"
  from assms(1) have d: "has_dims img ?R ?C" and p: "0 < ?R" "0 < ?C"
    by (simp_all add: nonempty_rect_iff)
  have w: "write_image True img = Inr (True, ?hdr @ pixel_array img)"
    using assms by (rule write_image_ok)
  have l: "length (?hdr @ pixel_array img) = encoded_size img"
    by (simp add: length_pixel_array [OF d p(1)] encoded_size_def mult.commute)
  have n: "(?hdr @ pixel_array img) ! (54 + x) = pixel_array img ! x" for x
    by (simp add: nth_append)
  have c: "uint ((?hdr @ pixel_array img) ! (54 + (?R - 1 - h) * stride_of ?C + 3 * w + k))
      = sint ([blue (img ! h ! w), green (img ! h ! w), red (img ! h ! w)] ! k) mod 256"
    if "h < ?R" "w < ?C" "k < 3" for h w k
  proof -
    have "(?hdr @ pixel_array img) ! (54 + ((?R - 1 - h) * stride_of ?C + 3 * w + k))
        = pixel_bytes (img ! h ! w) ! k"
      unfolding n using d that by (rule pixel_array_nth)
    moreover from that(3) consider "k = 0" | "k = 1" | "k = 2" by linarith
    then have "uint (pixel_bytes (img ! h ! w) ! k)
        = sint ([blue (img ! h ! w), green (img ! h ! w), red (img ! h ! w)] ! k) mod 256"
      by cases (simp_all add: pixel_bytes_def uint_chan)
    ultimately show ?thesis by (simp add: add.assoc)
  qed
  have "uint ((?hdr @ pixel_array img) ! (54 + (?R - 1 - h) * stride_of ?C + 3 * w))
            = sint (blue (img ! h ! w)) mod 256
        \<and> uint ((?hdr @ pixel_array img) ! (54 + (?R - 1 - h) * stride_of ?C + 3 * w + 1))
            = sint (green (img ! h ! w)) mod 256
        \<and> uint ((?hdr @ pixel_array img) ! (54 + (?R - 1 - h) * stride_of ?C + 3 * w + 2))
            = sint (red (img ! h ! w)) mod 256"
    if "h < ?R" "w < ?C" for h w
    using c [OF that, of 0] c [OF that, of 1] c [OF that, of 2] by simp
  with w l show ?thesis by blast
qed

theorem write_image_channel_bytes_witness:
  "nonempty_rect [[\<lparr>red = 300, green = - 1, blue = 256\<rparr>]]
   \<and> fits_int [[\<lparr>red = 300, green = - 1, blue = 256\<rparr>]]
   \<and> (\<exists>bytes. write_image True [[\<lparr>red = 300, green = - 1, blue = 256\<rparr>]] = Inr (True, bytes)
        \<and> length bytes = 58
        \<and> uint (bytes ! 54) = 0 \<and> uint (bytes ! 55) = 255 \<and> uint (bytes ! 56) = 44)"
proof -
  let ?img = "[[\<lparr>red = 300, green = - 1, blue = (256::cint)\<rparr>]]"
  have h: "nonempty_rect ?img" "fits_int ?img"
    by (simp_all add: nonempty_rect_def fits_int_def)
  from write_image_channel_bytes [OF h] obtain bytes where
    b: "write_image True ?img = Inr (True, bytes)" "length bytes = encoded_size ?img"
    and q: "\<forall>h < length ?img. \<forall>w < length (hd ?img).
          uint (bytes ! (54 + (length ?img - 1 - h) * stride_of (length (hd ?img)) + 3 * w))
            = sint (blue (?img ! h ! w)) mod 256
        \<and> uint (bytes ! (54 + (length ?img - 1 - h) * stride_of (length (hd ?img)) + 3 * w + 1))
            = sint (green (?img ! h ! w)) mod 256
        \<and> uint (bytes ! (54 + (length ?img - 1 - h) * stride_of (length (hd ?img)) + 3 * w + 2))
            = sint (red (?img ! h ! w)) mod 256"
    by blast
  from q [rule_format, of 0 0] have "uint (bytes ! 54) = 0" "uint (bytes ! 55) = 255" "uint (bytes ! 56) = 44"
    by simp_all
  moreover from b(2) have "length bytes = 58"
    by (simp add: encoded_size_def stride_of_def pad_of_def)
  ultimately show ?thesis using h b(1) by blast
qed

lemma seekg_ok: "\<not> failbit s \<Longrightarrow> p < 2 ^ 31 \<Longrightarrow> seekg (of_nat p) s = s\<lparr>gpos := p\<rparr>"
  by (simp add: seekg_def word_sless_alt sint_of_nat_small)

lemma get_ok:
  "\<not> failbit s \<Longrightarrow> gpos s < length (content s)
   \<Longrightarrow> get s = (ucast (content s ! gpos s), s\<lparr>gpos := gpos s + 1, consumed := consumed s @ [gpos s]\<rparr>)"
  by (simp add: get_def)

lemma vmod2_nat:
  assumes "has_dims m A B" and "i < A" and "j < B" and "A < 2 ^ 31" and "B < 2 ^ 31"
  shows "vmod2 m (of_nat i) (of_nat j) f = Inr (upd2 m i j (f (m ! i ! j)))"
proof -
  from assms have r: "i < length m" "j < length (m ! i)" "i < 2 ^ 31" "j < 2 ^ 31"
    by (auto simp: has_dims_def)
  show ?thesis
    by (simp add: vmod2_def vat2_nat [OF r] vset2_nat [OF r] upd2_def)
qed

lemma upd2_upd2:
  assumes "has_dims m A B" and "i < A" and "j < B"
  shows "upd2 (upd2 m i j x) i j y = upd2 m i j y"
  using assms by (simp add: upd2_def has_dims_def)

lemma c_div_24_8: "c_div 24 8 = 3"
  by (simp add: c_div_def signed_divide_int_def)

lemma read_pixel_ok:
  fixes im :: Image
  assumes im: "has_dims im R C" and i: "i < R" and j: "j < C" and R: "R < 2 ^ 31" and C: "C < 2 ^ 31"
    and str: "\<not> failbit str" "content str = d" and p: "p + 3 \<le> length d" and d: "length d < 2 ^ 31"
  shows "\<exists>str'. read_pixel 24 (of_nat i) (of_nat j) (im, of_nat p, str)
           = Inr (upd2 im i j \<lparr>red = ucast (d ! (p + 2)), green = ucast (d ! (p + 1)), blue = ucast (d ! p)\<rparr>,
                  of_nat (p + 3), str')
         \<and> \<not> failbit str' \<and> content str' = d"
proof -
  let ?s1 = "str\<lparr>gpos := p\<rparr>"
  let ?s2 = "?s1\<lparr>gpos := gpos ?s1 + 1, consumed := consumed ?s1 @ [gpos ?s1]\<rparr>"
  let ?s3 = "?s2\<lparr>gpos := gpos ?s2 + 1, consumed := consumed ?s2 @ [gpos ?s2]\<rparr>"
  let ?s4 = "?s3\<lparr>gpos := gpos ?s3 + 1, consumed := consumed ?s3 @ [gpos ?s3]\<rparr>"
  let ?b = "ucast (d ! p) :: cint" and ?g = "ucast (d ! (p + 1)) :: cint" and ?r = "ucast (d ! (p + 2)) :: cint"
  from p d have pb: "p < 2 ^ 31" by simp
  have sk: "seekg (of_nat p) str = ?s1" using str(1) pb by (rule seekg_ok)
  have g1: "get ?s1 = (?b, ?s2)" using str p by (subst get_ok) simp_all
  have g2: "get ?s2 = (?g, ?s3)" using str p by (subst get_ok) simp_all
  have g3: "get ?s3 = (?r, ?s4)" using str p by (subst get_ok) (simp_all add: numeral_2_eq_2)
  let ?m1 = "upd2 im i j ((im ! i ! j)\<lparr>blue := ?b\<rparr>)"
  let ?m2 = "upd2 im i j ((im ! i ! j)\<lparr>blue := ?b, green := ?g\<rparr>)"
  let ?m3 = "upd2 im i j ((im ! i ! j)\<lparr>blue := ?b, green := ?g, red := ?r\<rparr>)"
  have d1: "has_dims ?m1 R C" and d2: "has_dims ?m2 R C"
    using im by (simp_all add: has_dims_upd2)
  have v1: "vmod2 im (of_nat i) (of_nat j) (\<lambda>p. p\<lparr>blue := ?b\<rparr>) = Inr ?m1"
    using im i j R C by (rule vmod2_nat)
  have v2: "vmod2 ?m1 (of_nat i) (of_nat j) (\<lambda>p. p\<lparr>green := ?g\<rparr>) = Inr ?m2"
    by (simp only: vmod2_nat [OF d1 i j R C] nth_upd2 [OF im i j] upd2_upd2 [OF im i j]
        simp_thms if_True)
  have v3: "vmod2 ?m2 (of_nat i) (of_nat j) (\<lambda>p. p\<lparr>red := ?r\<rparr>) = Inr ?m3"
    by (simp only: vmod2_nat [OF d2 i j R C] nth_upd2 [OF im i j] upd2_upd2 [OF im i j]
        simp_thms if_True)
  have px: "(im ! i ! j)\<lparr>blue := ?b, green := ?g, red := ?r\<rparr> = \<lparr>red = ?r, green = ?g, blue = ?b\<rparr>"
    by (cases "im ! i ! j") simp
  have pos: "(of_nat p + 3 :: cint) = of_nat (p + 3)" by simp
  have "read_pixel 24 (of_nat i) (of_nat j) (im, of_nat p, str) = Inr (?m3, of_nat (p + 3), ?s4)"
    by (simp only: read_pixel_def prod.case sk g1 g2 g3 v1 v2 v3 bindR_Inr c_div_24_8 pos)
  moreover have "\<not> failbit ?s4" "content ?s4 = d" using str by simp_all
  ultimately show ?thesis by (simp only: px) blast
qed


lemma take_drop_step:
  assumes "j < length a" and "length b = length a"
  shows "(take j a @ drop j b)[j := a ! j] = take (Suc j) a @ drop (Suc j) b"
proof -
  have "drop j b = b ! j # drop (Suc j) b"
    using assms by (simp add: Cons_nth_drop_Suc)
  moreover have "length (take j a) = j" using assms(1) by simp
  ultimately have "(take j a @ drop j b)[j := a ! j] = take j a @ (a ! j # drop (Suc j) b)"
    by (simp add: list_update_append)
  also have "\<dots> = take (Suc j) a @ drop (Suc j) b"
    using assms(1) by (simp add: take_Suc_conv_app_nth)
  finally show ?thesis .
qed

lemma has_dims_row_update:
  "has_dims m A B \<Longrightarrow> length row = B \<Longrightarrow> has_dims (m[i := row]) A B"
  by (auto simp: has_dims_def dest!: set_update_subset_insert [THEN subsetD])

lemma seekg_cur_ok:
  assumes "\<not> failbit s" and "pad < 4"
  shows "\<not> failbit (seekg_cur (of_nat pad) s)" and "content (seekg_cur (of_nat pad) s) = content s"
proof -
  from assms(2) have "pad < 2 ^ 31" by simp
  then have "sint (of_nat pad :: cint) = int pad" by (rule sint_of_nat_small)
  with assms(1) show "\<not> failbit (seekg_cur (of_nat pad) s)"
    and "content (seekg_cur (of_nat pad) s) = content s"
    by (simp_all add: seekg_cur_def)
qed

lemma pixel_from_bytes:
  assumes "pixel_in_range px" and "b0 = pixel_bytes px ! 0" and "b1 = pixel_bytes px ! 1"
    and "b2 = pixel_bytes px ! 2"
  shows "\<lparr>red = ucast b2, green = ucast b1, blue = ucast b0\<rparr> = px"
  using assms by (cases px) (simp add: pixel_bytes_def pixel_in_range_def chan_roundtrip)

lemma read_row_ok:
  fixes im :: Image
  assumes im: "has_dims im R C" and i: "i < R" and R: "R < 2 ^ 31" and C: "C < 2 ^ 31"
    and str: "\<not> failbit str" "content str = d" and d: "length d < 2 ^ 31"
    and row: "length row = C" and inr: "\<forall>px \<in> set row. pixel_in_range px"
    and bytes: "\<And>j k. j < C \<Longrightarrow> k < 3 \<Longrightarrow> d ! (p0 + 3 * j + k) = pixel_bytes (row ! j) ! k"
    and fit: "p0 + 3 * C + pad \<le> length d" and pad: "pad < 4"
  shows "\<exists>str'. read_row 24 (of_nat C) (of_nat pad) (of_nat i) (im, of_nat p0, str)
           = Inr (im[i := row], of_nat (p0 + 3 * C + pad), str')
         \<and> \<not> failbit str' \<and> content str' = d"
proof -
  let ?P = "\<lambda>j (t :: Image \<times> cint \<times> istream).
      fst t = im[i := take j row @ drop j (im ! i)] \<and> fst (snd t) = of_nat (p0 + 3 * j)
      \<and> \<not> failbit (snd (snd t)) \<and> content (snd (snd t)) = d"
  have li: "length (im ! i) = C" using im i by (rule has_dims_nth)
  have lm: "i < length im" using im i by (simp add: has_dims_def)
  have "\<exists>t. iter [0..<C] (\<lambda>j. read_pixel 24 (of_nat i) (of_nat j)) (im, of_nat p0, str) = Inr t \<and> ?P C t"
  proof (rule iter_upt_inv)
    show "?P 0 (im, of_nat p0, str)" using str by simp
  next
    fix j and t :: "Image \<times> cint \<times> istream"
    assume j: "j < C" and t: "?P j t"
    obtain m pos s where tt: "t = (m, pos, s)" by (cases t)
    let ?X = "take j row @ drop j (im ! i)"
    let ?p = "p0 + 3 * j"
    from t tt have m: "m = im[i := ?X]" and pos: "pos = of_nat ?p"
      and s: "\<not> failbit s" "content s = d"
      by simp_all
    have lx: "length ?X = C" using j row li by simp
    have dm: "has_dims m R C" unfolding m using im lx by (rule has_dims_row_update)
    have pf: "?p + 3 \<le> length d" using j fit by simp
    from read_pixel_ok [OF dm i j R C s pf d]
    obtain s' where rp: "read_pixel 24 (of_nat i) (of_nat j) (m, of_nat ?p, s)
           = Inr (upd2 m i j \<lparr>red = ucast (d ! (?p + 2)), green = ucast (d ! (?p + 1)), blue = ucast (d ! ?p)\<rparr>,
                  of_nat (?p + 3), s')"
      and s': "\<not> failbit s'" "content s' = d"
      by blast
    have "row ! j \<in> set row" using j row by simp
    with inr have pr: "pixel_in_range (row ! j)" by blast
    have px: "\<lparr>red = ucast (d ! (?p + 2)), green = ucast (d ! (?p + 1)), blue = ucast (d ! ?p)\<rparr> = row ! j"
      using pr bytes [OF j, of 0] bytes [OF j, of 1] bytes [OF j, of 2]
      by (intro pixel_from_bytes) simp_all
    have "upd2 m i j (row ! j) = im[i := ?X[j := row ! j]]"
      using lm by (simp add: upd2_def m)
    also have "?X[j := row ! j] = take (Suc j) row @ drop (Suc j) (im ! i)"
      using j row li by (intro take_drop_step) simp_all
    finally have u: "upd2 m i j (row ! j) = im[i := take (Suc j) row @ drop (Suc j) (im ! i)]" .
    have "p0 + 3 * j + 3 = p0 + 3 * Suc j" by simp
    then show "\<exists>t'. read_pixel 24 (of_nat i) (of_nat j) t = Inr t' \<and> ?P (Suc j) t'"
      using s' by (simp only: tt pos rp px u) simp
  qed
  then obtain t where t: "iter [0..<C] (\<lambda>j. read_pixel 24 (of_nat i) (of_nat j)) (im, of_nat p0, str) = Inr t"
    and P: "?P C t" by blast
  obtain m pos s where tt: "t = (m, pos, s)" by (cases t)
  from P tt row li have m: "m = im[i := row]" and pos: "pos = of_nat (p0 + 3 * C)"
    and s: "\<not> failbit s" "content s = d"
    by simp_all
  have it: "iter (up_to (of_nat C)) (read_pixel 24 (of_nat i)) (im, of_nat p0, str) = Inr (m, pos, s)"
    using t by (simp only: up_to_nat [OF C] iter_map_fun tt)
  have "read_row 24 (of_nat C) (of_nat pad) (of_nat i) (im, of_nat p0, str)
      = Inr (im[i := row], of_nat (p0 + 3 * C + pad), seekg_cur (of_nat pad) s)"
    by (simp add: read_row_def it m pos)
  with seekg_cur_ok [OF s(1) pad] s(2) show ?thesis by simp
qed


lemma read_rows_ok:
  fixes img :: Image
  assumes img: "has_dims img R C" and R: "R < 2 ^ 31" and C: "C < 2 ^ 31"
    and d: "length d < 2 ^ 31" and inr: "image_in_range img" and pad: "pad < 4"
    and bytes: "\<And>h w k. h < R \<Longrightarrow> w < C \<Longrightarrow> k < 3
        \<Longrightarrow> d ! (54 + (R - 1 - h) * (3 * C + pad) + 3 * w + k) = pixel_bytes (img ! h ! w) ! k"
    and fit: "54 + R * (3 * C + pad) \<le> length d"
  shows "n \<le> R \<Longrightarrow> has_dims im R C \<Longrightarrow> \<not> failbit str \<Longrightarrow> content str = d
     \<Longrightarrow> \<exists>str'. iter (map of_nat (rev [0..<n])) (read_row 24 (of_nat C) (of_nat pad))
                (im, of_nat (54 + (R - n) * (3 * C + pad)), str)
           = Inr (take n img @ drop n im, of_nat (54 + R * (3 * C + pad)), str')
         \<and> \<not> failbit str' \<and> content str' = d"
proof (induction n arbitrary: im str)
  case 0
  then show ?case by simp
next
  case (Suc n)
  let ?S = "3 * C + pad"
  let ?p0 = "54 + (R - Suc n) * ?S"
  from Suc.prems(1) have n: "n < R" "n \<le> R" by simp_all
  have len: "length (img ! n) = C" using img n(1) by (rule has_dims_nth)
  have li: "length img = R" "length im = R" using img Suc.prems(2) by (simp_all add: has_dims_def)
  have rng: "\<forall>px \<in> set (img ! n). pixel_in_range px"
    using inr n(1) li(1) by (auto simp: image_in_range_def)
  have e: "R - Suc n = R - 1 - n" by simp
  have byt: "d ! (?p0 + 3 * j + k) = pixel_bytes (img ! n ! j) ! k" if "j < C" "k < 3" for j k
    unfolding e using n(1) that by (rule bytes)
  have nx: "?p0 + 3 * C + pad = 54 + (R - n) * ?S"
  proof -
    from n(1) have "R - n = Suc (R - Suc n)" by simp
    then show ?thesis by simp
  qed
  have "(R - n) * ?S \<le> R * ?S" by (intro mult_le_mono1) simp
  with fit have "54 + (R - n) * ?S \<le> length d" by linarith
  then have ft: "?p0 + 3 * C + pad \<le> length d" by (simp only: nx)
  from read_row_ok [OF Suc.prems(2) n(1) R C Suc.prems(3,4) d len rng byt ft pad]
  obtain s1 where 1: "read_row 24 (of_nat C) (of_nat pad) (of_nat n) (im, of_nat ?p0, str)
           = Inr (im[n := img ! n], of_nat (?p0 + 3 * C + pad), s1)"
    and s1: "\<not> failbit s1" "content s1 = d"
    by blast
  have d1: "has_dims (im[n := img ! n]) R C"
    using Suc.prems(2) len by (rule has_dims_row_update)
  from Suc.IH [OF n(2) d1 s1]
  obtain s2 where 2: "iter (map of_nat (rev [0..<n])) (read_row 24 (of_nat C) (of_nat pad))
                (im[n := img ! n], of_nat (54 + (R - n) * ?S), s1)
           = Inr (take n img @ drop n (im[n := img ! n]), of_nat (54 + R * ?S), s2)"
    and s2: "\<not> failbit s2" "content s2 = d"
    by blast
  have "drop n (im[n := img ! n]) = (im[n := img ! n]) ! n # drop (Suc n) (im[n := img ! n])"
    using n(1) li(2) by (intro Cons_nth_drop_Suc [symmetric]) simp
  then have "drop n (im[n := img ! n]) = img ! n # drop (Suc n) im"
    using n(1) li(2) by simp
  moreover have "take (Suc n) img = take n img @ [img ! n]"
    using n(1) li(1) by (simp add: take_Suc_conv_app_nth)
  ultimately have tk: "take n img @ drop n (im[n := img ! n]) = take (Suc n) img @ drop (Suc n) im"
    by simp
  have r: "map of_nat (rev [0..<Suc n]) = (of_nat n :: cint) # map of_nat (rev [0..<n])"
    by simp
  have "iter (map of_nat (rev [0..<Suc n])) (read_row 24 (of_nat C) (of_nat pad)) (im, of_nat ?p0, str)
      = Inr (take (Suc n) img @ drop (Suc n) im, of_nat (54 + R * ?S), s2)"
    by (simp only: r iter.simps 1 sum.case nx 2 tk)
  with s2 show ?case by blast
qed


lemma read_written:
  assumes ne: "nonempty_rect img" and inr: "image_in_range img" and sz: "encoded_size img < 2 ^ 31"
  shows "\<exists>s'. read_image (open_in (file_header (of_nat (length (hd img))) (of_nat (length img))
                  (of_nat (stride_of (length (hd img)) * length img)) @ pixel_array img))
           = Inr (img, s')"
proof -
  let ?C = "length (hd img)" and ?R = "length img"
  let ?W = "of_nat ?C :: cint" and ?H = "of_nat ?R :: cint"
  let ?A = "of_nat (stride_of ?C * ?R) :: cint"
  let ?pad = "pad_of ?C"
  let ?d = "file_header ?W ?H ?A @ pixel_array img"
  let ?im0 = "replicate ?R (replicate ?C zero_pixel)"
  from ne have dm: "has_dims img ?R ?C" and p: "0 < ?R" "0 < ?C"
    by (simp_all add: nonempty_rect_iff)
  note b = encodable_bounds [OF ne sz]
  have S: "stride_of ?C = 3 * ?C + ?pad" by (simp add: stride_of_def)
  have form: "?d = [66, 77] @ le4 (54 + ?A) @ [0, 0, 0, 0] @ le4 54 @ le4 40 @ le4 ?W @ le4 ?H
      @ [1, 0, 24, 0] @ (le4 0 @ le4 ?A @ le4 2835 @ le4 2835 @ le4 0 @ le4 0) @ pixel_array img"
    by (simp add: file_header_def)
  have "fst (read_header (open_in ?d)) = (54 + ?A, 54, ?W, ?H, 24)"
    and "\<not> failbit (snd (read_header (open_in ?d)))" "content (snd (read_header (open_in ?d))) = ?d"
    unfolding form by (rule read_header_written)+
  then obtain s1 where rh: "read_header (open_in ?d) = ((54 + ?A, 54, ?W, ?H, 24), s1)"
    and s1: "\<not> failbit s1" "content s1 = ?d"
    by (cases "read_header (open_in ?d)") simp
  have len: "length ?d = 54 + ?R * (3 * ?C + ?pad)"
    by (simp add: length_pixel_array [OF dm p(1)] S)
  then have dl: "length ?d < 2 ^ 31" using b(4) by (simp add: S mult.commute)
  have pr: "scanline_padding (?W * c_div 24 8) = of_nat ?pad"
    using b(1) by (rule read_padding)
  have ab: "(?W * c_div 24 8 + of_nat ?pad) * ?H = ?A"
    by (simp add: c_div_24_8 stride_of_def algebra_simps)
  have mk: "make_image ?H ?W = Inr ?im0" using b(3,2) by (rule make_image_ok)
  have df: "down_from (?H - 1) = map of_nat (rev [0..<?R])" using p(1) b(3) by (rule down_from_nat)
  have bytes: "?d ! (54 + (?R - 1 - h) * (3 * ?C + ?pad) + 3 * w + k) = pixel_bytes (img ! h ! w) ! k"
    if "h < ?R" "w < ?C" "k < 3" for h w k
  proof -
    have "?d ! (54 + ((?R - 1 - h) * stride_of ?C + 3 * w + k)) = pixel_array img ! ((?R - 1 - h) * stride_of ?C + 3 * w + k)"
      by (simp add: nth_append)
    also have "\<dots> = pixel_bytes (img ! h ! w) ! k"
      using dm that by (rule pixel_array_nth)
    finally show ?thesis by (simp add: S add.assoc)
  qed
  have fit: "54 + ?R * (3 * ?C + ?pad) \<le> length ?d" using len by simp
  from read_rows_ok [OF dm b(3) b(2) dl inr pad_of_bound bytes fit, of ?R ?im0 s1]
    has_dims_replicate [of ?R ?C zero_pixel] s1
  obtain s2 where "iter (map of_nat (rev [0..<?R])) (read_row 24 ?W (of_nat ?pad))
                (?im0, of_nat (54 + (?R - ?R) * (3 * ?C + ?pad)), s1)
           = Inr (take ?R img @ drop ?R ?im0, of_nat (54 + ?R * (3 * ?C + ?pad)), s2)"
    by blast
  then have lp: "iter (down_from (?H - 1)) (read_row 24 ?W (of_nat ?pad)) (?im0, 54, s1)
           = Inr (img, of_nat (54 + ?R * (3 * ?C + ?pad)), s2)"
    by (simp add: df)
  have "read_image (open_in ?d) = Inr (img, s2)"
    by (simp only: read_image_def rh prod.case Let_def pr ab simp_thms if_False mk bindR_Inr lp)
  then show ?thesis by blast
qed

text \<open>
  Claim C1, for images whose encoded file fits an \<^verbatim>\<open>int\<close>. For a non-empty rectangular
  image with channel values from 0 to 255 and an encoded size \<open>54 + row_stride * height\<close>
  below \<open>2 ^ 31\<close>, \<open>write_image\<close> succeeds and \<open>read_image\<close> on the bytes it wrote returns
  the image.
\<close>

theorem encode_decode_roundtrip:
  assumes "nonempty_rect img" and "image_in_range img" and "encoded_size img < 2 ^ 31"
  shows "\<exists>bytes s'. write_image True img = Inr (True, bytes)
           \<and> read_image (open_in bytes) = Inr (img, s')"
proof -
  have "fits_int img"
    using encodable_bounds(2,3) [OF assms(1,3)] by (simp add: fits_int_def)
  with assms(1) have "write_image True img
       = Inr (True, file_header (of_nat (length (hd img))) (of_nat (length img))
                      (of_nat (stride_of (length (hd img)) * length img)) @ pixel_array img)"
    by (rule write_image_ok)
  with read_written [OF assms] show ?thesis by blast
qed

text \<open>
  The claim as stated fails on the image of one row of 715827883 black pixels, whose
  numbers of rows and columns fit an \<^verbatim>\<open>int\<close>. The row takes \<open>2 ^ 31 + 1\<close> bytes, which
  the \<^verbatim>\<open>int\<close> variables \<^verbatim>\<open>width_bytes\<close> and \<^verbatim>\<open>scanline_size\<close> hold as \<open>- 2147483647\<close>.
  \<open>write_image\<close> pads the row with \<^verbatim>\<open>(4 - width_bytes % 4) % 4\<close>, that is 3 bytes, and
  writes the headers and the 2147483652 bytes of the pixel array; \<open>read_image\<close> takes the
  padding as \<^verbatim>\<open>4 - scanline_size % 4\<close>, that is 7, so its size test fails on the file
  written and it returns the empty vector.
\<close>

theorem encode_decode_counterexample:
  "nonempty_rect [replicate 715827883 zero_pixel]
   \<and> image_in_range [replicate 715827883 zero_pixel]
   \<and> fits_int [replicate 715827883 zero_pixel]
   \<and> write_image True [replicate 715827883 zero_pixel]
       = Inr (True, file_header 715827883 1 2147483652
                      @ pixel_array [replicate 715827883 zero_pixel])
   \<and> sint ((715827883 :: cint) * c_div 24 8) = - 2147483647
   \<and> c_mod (4 - c_mod ((715827883 :: cint) * 3) 4) 4 = 3
   \<and> scanline_padding ((715827883 :: cint) * c_div 24 8) = 7
   \<and> map_sum id fst (read_image (open_in (file_header 715827883 1 2147483652
                      @ pixel_array [replicate 715827883 zero_pixel]))) = Inr []"
proof -
  let ?img = "[replicate 715827883 zero_pixel]"
  let ?d = "file_header 715827883 1 2147483652 @ pixel_array ?img"
  have 1: "nonempty_rect ?img"
    by (simp add: nonempty_rect_def)
  have 2: "image_in_range ?img"
    by (simp add: image_in_range_def pixel_in_range_def in_byte_range_def zero_pixel_def word_sle_eq)
  have 3: "fits_int ?img"
    by (simp add: fits_int_def)
  have s: "stride_of 715827883 = 2147483652"
    by (simp add: stride_of_def pad_of_def)
  have 4: "write_image True ?img = Inr (True, ?d)"
    using write_image_ok [OF 1 3] by (simp add: s)
  have "fst (read_header (open_in ?d)) = (54 + 2147483652, 54, 715827883, 1, 24)"
    using read_header_written(1) [of "54 + 2147483652" 715827883 1
        "le4 0 @ le4 2147483652 @ le4 2835 @ le4 2835 @ le4 0 @ le4 0" "pixel_array ?img"]
    by (simp only: file_header_def append_assoc)
  then obtain s1 where rh: "read_header (open_in ?d) = ((54 + 2147483652, 54, 715827883, 1, 24), s1)"
    by (cases "read_header (open_in ?d)") simp
  have sl: "(715827883 :: cint) * c_div 24 8 = 2147483649"
    by (simp add: c_div_24_8)
  have sv: "sint (2147483649 :: cint) = - 2147483647"
    by simp
  have cm: "c_mod (2147483649 :: cint) 4 = - 3"
    by (simp add: c_mod_def signed_modulo_int_def sv)
  have 5: "sint ((715827883 :: cint) * c_div 24 8) = - 2147483647"
    by (simp only: sl sv)
  have 6: "c_mod (4 - c_mod ((715827883 :: cint) * 3) 4) 4 = 3"
    by (simp add: cm) (simp add: c_mod_def signed_modulo_int_def)
  have pd: "scanline_padding (2147483649 :: cint) = 7"
    by (simp add: scanline_padding_def cm)
  have 7: "scanline_padding ((715827883 :: cint) * c_div 24 8) = 7"
    by (simp only: sl pd)
  have ne: "(54 + 2147483652 :: cint) \<noteq> 54 + (2147483649 + 7) * 1"
    by simp
  have 8: "map_sum id fst (read_image (open_in ?d)) = Inr []"
    using ne by (simp only: read_image_def rh prod.case Let_def sl pd simp_thms if_True
        map_sum.simps id_apply fst_conv)
  from 1 2 3 4 5 6 7 8 show ?thesis by blast
qed

theorem encode_decode_roundtrip_witness:
  "nonempty_rect [[\<lparr>red = 255, green = 0, blue = 0\<rparr>, \<lparr>red = 0, green = 255, blue = 0\<rparr>],
                  [\<lparr>red = 0, green = 0, blue = 255\<rparr>, \<lparr>red = 255, green = 255, blue = 255\<rparr>]]
   \<and> image_in_range [[\<lparr>red = 255, green = 0, blue = 0\<rparr>, \<lparr>red = 0, green = 255, blue = 0\<rparr>],
                  [\<lparr>red = 0, green = 0, blue = 255\<rparr>, \<lparr>red = 255, green = 255, blue = 255\<rparr>]]
   \<and> encoded_size [[\<lparr>red = 255, green = 0, blue = 0\<rparr>, \<lparr>red = 0, green = 255, blue = 0\<rparr>],
                  [\<lparr>red = 0, green = 0, blue = 255\<rparr>, \<lparr>red = 255, green = 255, blue = (255::cint)\<rparr>]] < 2 ^ 31
   \<and> (\<exists>bytes s'. write_image True
            [[\<lparr>red = 255, green = 0, blue = 0\<rparr>, \<lparr>red = 0, green = 255, blue = 0\<rparr>],
             [\<lparr>red = 0, green = 0, blue = 255\<rparr>, \<lparr>red = 255, green = 255, blue = 255\<rparr>]] = Inr (True, bytes)
         \<and> read_image (open_in bytes)
           = Inr ([[\<lparr>red = 255, green = 0, blue = 0\<rparr>, \<lparr>red = 0, green = 255, blue = 0\<rparr>],
                   [\<lparr>red = 0, green = 0, blue = 255\<rparr>, \<lparr>red = 255, green = 255, blue = 255\<rparr>]], s'))"
proof -
  let ?img = "[[\<lparr>red = 255, green = 0, blue = 0\<rparr>, \<lparr>red = 0, green = 255, blue = 0\<rparr>],
               [\<lparr>red = 0, green = 0, blue = 255\<rparr>, \<lparr>red = 255, green = 255, blue = (255::cint)\<rparr>]]"
  have h: "nonempty_rect ?img" "image_in_range ?img" "encoded_size ?img < 2 ^ 31"
    by (simp_all add: nonempty_rect_def image_in_range_def pixel_in_range_def in_byte_range_def
        word_sle_eq encoded_size_def stride_of_def pad_of_def)
  from h encode_decode_roundtrip [OF h] show ?thesis by blast
qed

end
